theory Spec2Isabelle
  imports Main "HOL-Library.Sublist" "HOL-Library.Char_ord" "HOL-Library.List_Lexorder"
    "HOL-Library.AList"
begin

text \<open>
  A model of two scripts of the WooCommerce repository: the generator of the block reference,
  which reads every \<^verbatim>\<open>block.json\<close> under \<^verbatim>\<open>assets/js\<close> and rewrites the marked region
  of \<^verbatim>\<open>docs/block-references/block-references.md\<close>, and the workflow that handles a
  code-freeze exception once its issue is labelled. Strings are lists of characters, one
  \<^typ>\<open>char\<close> for one code unit of a JavaScript string; the model covers the code units
  below 256.
\<close>

section \<open>Regular expressions of the scripts\<close>

text \<open>
  The scripts use three regular expressions, all of one shape: a sequence of literal texts and
  of repetitions of a single-character class. \<open>RLit\<close> is a literal text, \<open>RStar\<close> a greedy
  \<^verbatim>\<open>X*\<close>, \<open>RLazy\<close> a lazy \<^verbatim>\<open>X*?\<close> and \<open>RPlus\<close> a greedy \<^verbatim>\<open>X+\<close>, where \<open>X\<close>
  is given by the predicate of its characters.
\<close>

datatype rx =
    RLit string
  | RStar "char \<Rightarrow> bool"
  | RLazy "char \<Rightarrow> bool"
  | RPlus "char \<Rightarrow> bool"

text \<open>
  \<open>bt re s\<close> is the backtracking matcher at the start of \<open>s\<close>: the text matched by each item
  of \<open>re\<close>, in order, or \<open>None\<close> when there is no match here. A greedy repetition first tries
  to take one more character and gives it back when the rest fails; a lazy repetition first
  tries the rest and takes one more character when that fails. \<open>push c\<close> puts a character in
  front of the text of the first item.
\<close>

definition push :: "char \<Rightarrow> string list \<Rightarrow> string list" where
  "push c segs = (case segs of [] \<Rightarrow> [[c]] | w # ws \<Rightarrow> (c # w) # ws)"

function bt :: "rx list \<Rightarrow> string \<Rightarrow> string list option" where
  "bt [] s = Some []"
| "bt (RLit l # r) s =
     (if prefix l s then map_option ((#) l) (bt r (drop (length l) s)) else None)"
| "bt (RStar P # r) [] = map_option ((#) []) (bt r [])"
| "bt (RStar P # r) (c # cs) =
     (if P c then
        (case bt (RStar P # r) cs of
           Some segs \<Rightarrow> Some (push c segs)
         | None \<Rightarrow> map_option ((#) []) (bt r (c # cs)))
      else map_option ((#) []) (bt r (c # cs)))"
| "bt (RLazy P # r) [] = map_option ((#) []) (bt r [])"
| "bt (RLazy P # r) (c # cs) =
     (case bt r (c # cs) of
        Some segs \<Rightarrow> Some ([] # segs)
      | None \<Rightarrow> if P c then map_option (push c) (bt (RLazy P # r) cs) else None)"
| "bt (RPlus P # r) [] = None"
| "bt (RPlus P # r) (c # cs) =
     (if P c then map_option (push c) (bt (RStar P # r) cs) else None)"
  by pat_completeness auto
termination
  by (relation "measure (\<lambda>(r, s). length r + length s)") auto

text \<open>
  \<open>search re s\<close> is the search of a pattern without flags \<^verbatim>\<open>g\<close> or \<^verbatim>\<open>y\<close>: the matcher is
  tried at index 0, 1, ... up to the end of the string, and the first index where it matches
  is returned with the matched texts.
\<close>

fun search :: "rx list \<Rightarrow> string \<Rightarrow> (nat \<times> string list) option" where
  "search re [] = map_option (Pair 0) (bt re [])"
| "search re (c # cs) =
     (case bt re (c # cs) of
        Some segs \<Rightarrow> Some (0, segs)
      | None \<Rightarrow> map_option (\<lambda>(index, segs). (Suc index, segs)) (search re cs))"

text \<open>
  \<^verbatim>\<open>const TOKEN_PATTERN = new RegExp( START_TOKEN + '[^]*' + END_TOKEN );\<close>
  Neither token holds a character that is special in a pattern, so each stands for itself;
  \<^verbatim>\<open>[^]\<close> is any character, a line break too.
\<close>

definition START_TOKEN :: string where
  "START_TOKEN = ''<!-- START Autogenerated - DO NOT EDIT -->''"

definition END_TOKEN :: string where
  "END_TOKEN = ''<!-- END Autogenerated - DO NOT EDIT -->''"

definition any_char :: "char \<Rightarrow> bool" where
  "any_char c = True"

definition TOKEN_PATTERN :: "rx list" where
  "TOKEN_PATTERN = [RLit START_TOKEN, RStar any_char, RLit END_TOKEN]"

text \<open>
  \<open>get_substitution matched pre post template\<close> expands the replacement text of
  \<^verbatim>\<open>String.prototype.replace\<close>: \<^verbatim>\<open>$$\<close> is a dollar sign, \<^verbatim>\<open>$&\<close> the matched text,
  a dollar sign with a backquote (character 0x60) the text before the match and a dollar sign
  with a quote (character 0x27) the text after it. The pattern has no group, so a dollar sign
  before a digit or before \<^verbatim>\<open><\<close> stands for itself, as every other character does.
\<close>

fun get_substitution :: "string \<Rightarrow> string \<Rightarrow> string \<Rightarrow> string \<Rightarrow> string" where
  "get_substitution m p q [] = []"
| "get_substitution m p q [c] = [c]"
| "get_substitution m p q (c # d # t) =
     (if c = CHR ''$'' \<and> d = CHR ''$'' then CHR ''$'' # get_substitution m p q t
      else if c = CHR ''$'' \<and> d = CHR 0x60 then p @ get_substitution m p q t
      else if c = CHR ''$'' \<and> d = CHR ''&'' then m @ get_substitution m p q t
      else if c = CHR ''$'' \<and> d = CHR 0x27 then q @ get_substitution m p q t
      else c # get_substitution m p q (d # t))"

definition replace :: "rx list \<Rightarrow> string \<Rightarrow> string \<Rightarrow> string" where
  "replace re s template =
     (case search re s of
        None \<Rightarrow> s
      | Some (index, segs) \<Rightarrow>
          (let matched = concat segs;
               pre = take index s;
               post = drop (index + length matched) s
           in pre @ get_substitution matched pre post template @ post))"

text \<open>
  \<^verbatim>\<open>autogen = START_TOKEN + '\n' + autogen + '\n' + END_TOKEN;\<close>
  \<^verbatim>\<open>docsContent = docsContent.replace( TOKEN_PATTERN, autogen );\<close>
\<close>

definition nl :: string where
  "nl = [CHR 0x0A]"

definition splice :: "string \<Rightarrow> string \<Rightarrow> string" where
  "splice docsContent autogen =
     replace TOKEN_PATTERN docsContent (START_TOKEN @ nl @ autogen @ nl @ END_TOKEN)"

text \<open>
  \<open>occurrences t s\<close> lists, in ascending order, the indices of \<open>s\<close> where the text \<open>t\<close>
  starts. A document is \<open>marked\<close> when a start token is followed, after its end, by an end
  token.
\<close>

fun occurrences_from :: "nat \<Rightarrow> string \<Rightarrow> string \<Rightarrow> nat list" where
  "occurrences_from i t [] = (if t = [] then [i] else [])"
| "occurrences_from i t (c # cs) =
     (if prefix t (c # cs) then i # occurrences_from (Suc i) t cs
      else occurrences_from (Suc i) t cs)"

definition occurrences :: "string \<Rightarrow> string \<Rightarrow> nat list" where
  "occurrences t s = occurrences_from 0 t s"

definition marked :: "string \<Rightarrow> bool" where
  "marked doc =
     (\<exists>i\<in>set (occurrences START_TOKEN doc). \<exists>j\<in>set (occurrences END_TOKEN doc).
        i + length START_TOKEN \<le> j)"

section \<open>Parsed descriptor files\<close>

text \<open>
  \<^verbatim>\<open>const blockjson = require( filename );\<close>
  The value a descriptor file parses to. An object is the list of its own properties in the
  order \<^verbatim>\<open>Object.keys\<close> lists them, with distinct keys. A number is carried by the text
  that JavaScript prints for it, so the number zero is \<open>JNum ''0''\<close>. A value that may be
  \<^verbatim>\<open>undefined\<close> has type \<open>json option\<close>. Every exception the script can raise on such
  values is a \<^verbatim>\<open>TypeError\<close>.
\<close>

datatype json =
    JNull
  | JBool bool
  | JNum string
  | JStr string
  | JArr "json list"
  | JObj "(string \<times> json) list"

datatype error = TypeError

fun truthy :: "json \<Rightarrow> bool" where
  "truthy JNull = False"
| "truthy (JBool b) = b"
| "truthy (JNum n) = (n \<noteq> ''0'')"
| "truthy (JStr s) = (s \<noteq> [])"
| "truthy (JArr xs) = True"
| "truthy (JObj kvs) = True"

fun truthy_opt :: "json option \<Rightarrow> bool" where
  "truthy_opt None = False"
| "truthy_opt (Some v) = truthy v"

fun typeof :: "json option \<Rightarrow> string" where
  "typeof None = ''undefined''"
| "typeof (Some JNull) = ''object''"
| "typeof (Some (JBool b)) = ''boolean''"
| "typeof (Some (JNum n)) = ''number''"
| "typeof (Some (JStr s)) = ''string''"
| "typeof (Some (JArr xs)) = ''object''"
| "typeof (Some (JObj kvs)) = ''object''"

text \<open>\<open>collect\<close> gives the results of a list of steps, or the first error.\<close>

fun collect :: "(error + 'a) list \<Rightarrow> error + 'a list" where
  "collect [] = Inr []"
| "collect (Inl e # rs) = Inl e"
| "collect (Inr x # rs) = (case collect rs of Inl e \<Rightarrow> Inl e | Inr xs \<Rightarrow> Inr (x # xs))"

text \<open>
  \<open>to_string\<close> is the conversion to a string that a template literal applies. An array is
  joined with commas, an element \<^verbatim>\<open>null\<close> giving the empty string. An object prints as
  \<^verbatim>\<open>[object Object]\<close>, unless it has an own property \<^verbatim>\<open>toString\<close>, which is never a
  function in parsed JSON: then the conversion raises.
\<close>

fun join :: "string \<Rightarrow> string list \<Rightarrow> string" where
  "join sep [] = []"
| "join sep [x] = x"
| "join sep (x # y # ys) = x @ sep @ join sep (y # ys)"

fun to_string :: "json \<Rightarrow> error + string" where
  "to_string JNull = Inr ''null''"
| "to_string (JBool b) = Inr (if b then ''true'' else ''false'')"
| "to_string (JNum n) = Inr n"
| "to_string (JStr s) = Inr s"
| "to_string (JArr xs) =
     (case collect (map (\<lambda>x. if x = JNull then Inr [] else to_string x) xs) of
        Inl e \<Rightarrow> Inl e
      | Inr ss \<Rightarrow> Inr (join '','' ss))"
| "to_string (JObj kvs) =
     (if ''toString'' \<in> fst ` set kvs then Inl TypeError else Inr ''[object Object]'')"

fun to_string_opt :: "json option \<Rightarrow> error + string" where
  "to_string_opt None = Inr ''undefined''"
| "to_string_opt (Some v) = to_string v"

text \<open>
  \<^verbatim>\<open>Array.prototype.join\<close> with a separator, and \<^verbatim>\<open>Array.prototype.sort\<close> with no
  comparison function: a stable sort by the string of each element, strings compared code unit
  by code unit.
\<close>

definition array_join :: "string \<Rightarrow> json list \<Rightarrow> error + string" where
  "array_join sep xs =
     (case collect (map (\<lambda>x. if x = JNull then Inr [] else to_string x) xs) of
        Inl e \<Rightarrow> Inl e
      | Inr ss \<Rightarrow> Inr (join sep ss))"

definition array_sort :: "json list \<Rightarrow> error + json list" where
  "array_sort xs =
     (case collect (map to_string xs) of
        Inl e \<Rightarrow> Inl e
      | Inr ks \<Rightarrow> Inr (map snd (sort_key fst (zip ks xs))))"

text \<open>
  \<open>own_entries\<close> gives what \<^verbatim>\<open>Object.keys\<close> enumerates, each key with its value: the
  properties of an object, the elements of an array and the characters of a string under their
  indices in decimal, nothing for a boolean or a number; \<^verbatim>\<open>Object.keys(null)\<close> raises.
\<close>

function show_nat :: "nat \<Rightarrow> string" where
  "show_nat n =
     (if n < 10 then [char_of (48 + n)]
      else show_nat (n div 10) @ [char_of (48 + n mod 10)])"
  by pat_completeness auto
termination
  by (relation "measure id") auto

fun own_entries :: "json \<Rightarrow> error + (string \<times> json) list" where
  "own_entries JNull = Inl TypeError"
| "own_entries (JBool b) = Inr []"
| "own_entries (JNum n) = Inr []"
| "own_entries (JStr s) = Inr (zip (map show_nat [0..<length s]) (map (\<lambda>c. JStr [c]) s))"
| "own_entries (JArr xs) = Inr (zip (map show_nat [0..<length xs]) xs)"
| "own_entries (JObj kvs) = Inr kvs"

text \<open>
  Reading one of the properties \<^verbatim>\<open>name\<close>, \<^verbatim>\<open>title\<close>, \<^verbatim>\<open>description\<close>,
  \<^verbatim>\<open>category\<close>, \<^verbatim>\<open>ancestor\<close>, \<^verbatim>\<open>parent\<close>, \<^verbatim>\<open>supports\<close> or \<^verbatim>\<open>attributes\<close>: an
  object gives its own property, any other value but \<^verbatim>\<open>null\<close> gives \<^verbatim>\<open>undefined\<close>
  (no prototype has a property of one of these names), and reading from \<^verbatim>\<open>null\<close> raises.
\<close>

fun field :: "json \<Rightarrow> string \<Rightarrow> json option" where
  "field (JObj kvs) k = map_of kvs k"
| "field v k = None"

definition get_prop :: "json \<Rightarrow> string \<Rightarrow> error + json option" where
  "get_prop v k = (if v = JNull then Inl TypeError else Inr (field v k))"

section \<open>The reference generator\<close>

text \<open>
  \<^verbatim>\<open>return Object.keys( obj )\<close>
  \<^verbatim>\<open>  .filter( ( key ) => ! key.startsWith( '__exp' ) )\<close>
  \<^verbatim>\<open>  .map( ( key ) => ( obj[ key ] ? key : "~~" + key + "~~" ) );\<close>
\<close>

definition strike :: "string \<Rightarrow> string" where
  "strike key = ''~~'' @ key @ ''~~''"

definition getTruthyKeys :: "json \<Rightarrow> error + string list" where
  "getTruthyKeys obj =
     (case own_entries obj of
        Inl e \<Rightarrow> Inl e
      | Inr es \<Rightarrow>
          Inr (map (\<lambda>key. if truthy_opt (map_of es key) then key else strike key)
                 (filter (\<lambda>key. \<not> prefix ''__exp'' key) (map fst es))))"

text \<open>
  One round of the loop of \<^verbatim>\<open>processObjWithInnerKeys\<close>: \<open>key\<close> comes from the truthy-key
  list, so it may be a struck key, and \<^verbatim>\<open>obj[ key ]\<close> is looked up under that text. An
  array is sorted and joined; any other value whose \<^verbatim>\<open>typeof\<close> is \<^verbatim>\<open>object\<close> (an object
  or \<^verbatim>\<open>null\<close>) gives its own sorted truthy-key list; anything else gives the key alone.
\<close>

definition inner_entry :: "(string \<times> json) list \<Rightarrow> string \<Rightarrow> error + string" where
  "inner_entry es key =
     (case map_of es key of
        Some (JArr xs) \<Rightarrow>
          (case array_sort xs of
             Inl e \<Rightarrow> Inl e
           | Inr ys \<Rightarrow>
               (case array_join '', '' ys of
                  Inl e \<Rightarrow> Inl e
                | Inr j \<Rightarrow> Inr (key @ '' ('' @ j @ '')'')))
      | v \<Rightarrow>
          if typeof v = ''object'' then
            (case v of
               None \<Rightarrow> Inr key
             | Some w \<Rightarrow>
                 (case getTruthyKeys w of
                    Inl e \<Rightarrow> Inl e
                  | Inr innerKeys \<Rightarrow> Inr (key @ '' ('' @ join '', '' (sort innerKeys) @ '')'')))
          else Inr key)"

definition processObjWithInnerKeys :: "json \<Rightarrow> error + string list" where
  "processObjWithInnerKeys obj =
     (case getTruthyKeys obj of
        Inl e \<Rightarrow> Inl e
      | Inr kvs \<Rightarrow>
          (case own_entries obj of
             Inl e \<Rightarrow> Inl e
           | Inr es \<Rightarrow> collect (map (inner_entry es) kvs)))"

text \<open>
  \<^verbatim>\<open>augmentSupports\<close>. A falsy \<open>supports\<close> is returned as it is; the operator
  \<^verbatim>\<open>in\<close> raises on a truthy boolean, number or string; an array has no property
  \<^verbatim>\<open>color\<close>. When \<^verbatim>\<open>supports.color\<close> is \<^verbatim>\<open>null\<close>, its \<^verbatim>\<open>typeof\<close> is
  \<^verbatim>\<open>object\<close> and \<^verbatim>\<open>'background' in null\<close> raises. A new property of an object comes
  last in its key order. When \<^verbatim>\<open>supports.color\<close> is an array the script sets the two
  properties on the array; they are not elements, and the only later reader of that array
  sorts and joins its elements, so the model leaves the array as it is.
\<close>

definition set_default :: "string \<Rightarrow> (string \<times> json) list \<Rightarrow> (string \<times> json) list" where
  "set_default k kvs = (if k \<in> fst ` set kvs then kvs else kvs @ [(k, JBool True)])"

fun augmentSupports :: "json \<Rightarrow> error + json" where
  "augmentSupports (JObj kvs) =
     (case map_of kvs ''color'' of
        None \<Rightarrow> Inr (JObj kvs)
      | Some JNull \<Rightarrow> Inl TypeError
      | Some (JObj color) \<Rightarrow>
          Inr (JObj (AList.update ''color''
                 (JObj (set_default ''text'' (set_default ''background'' color))) kvs))
      | Some v \<Rightarrow> Inr (JObj kvs))"
| "augmentSupports (JArr xs) = Inr (JArr xs)"
| "augmentSupports v = (if truthy v then Inl TypeError else Inr v)"

text \<open>
  The two kinds of expression in the template: \<^verbatim>\<open>blockjson.description || ''\<close> and
  \<^verbatim>\<open>supportsList || supportsList.sort().join( ', ' )\<close>, each then converted to a string.
\<close>

definition or_empty :: "json option \<Rightarrow> error + string" where
  "or_empty v = (if truthy_opt v then to_string_opt v else Inr [])"

definition or_sorted :: "string list \<Rightarrow> error + string" where
  "or_sorted list =
     (if truthy (JArr (map JStr list)) then to_string (JArr (map JStr list))
      else Inr (join '', '' (sort list)))"

definition tab :: string where
  "tab = [CHR 0x09]"

text \<open>
  The two lists \<^verbatim>\<open>readBlockJSON\<close> computes before it fills the template, from
  \<^verbatim>\<open>blockjson.supports\<close> and from \<^verbatim>\<open>blockjson.attributes\<close>.
\<close>

definition supportsList_of :: "json option \<Rightarrow> error + string list" where
  "supportsList_of supports =
     (case supports of
        None \<Rightarrow> Inr []
      | Some s \<Rightarrow>
          (case augmentSupports s of
             Inl e \<Rightarrow> Inl e
           | Inr supportsAugmented \<Rightarrow>
               if truthy supportsAugmented then processObjWithInnerKeys supportsAugmented
               else Inr []))"

definition attributes_of :: "json option \<Rightarrow> error + string list" where
  "attributes_of attrs = (case attrs of None \<Rightarrow> Inr [] | Some a \<Rightarrow> getTruthyKeys a)"

definition template :: "string \<Rightarrow> string \<Rightarrow> string \<Rightarrow> string \<Rightarrow> string \<Rightarrow> string \<Rightarrow>
    string \<Rightarrow> string \<Rightarrow> string" where
  "template title name description category ancestor parent supports attrs =
     nl @ ''## '' @ title @ '' - '' @ name @ nl @
     nl @
     description @ nl @
     nl @
     ''-'' @ tab @ ''**Name:** '' @ name @ nl @
     ''-'' @ tab @ ''**Category:** '' @ category @ nl @
     ''-   **Ancestor:** '' @ ancestor @ nl @
     ''-   **Parent:** '' @ parent @ nl @
     ''-'' @ tab @ ''**Supports:** '' @ supports @ nl @
     ''-'' @ tab @ ''**Attributes:** '' @ attrs @ nl"

definition render :: "json \<Rightarrow> json \<Rightarrow> string list \<Rightarrow> string list \<Rightarrow> error + string" where
  "render blockjson name supportsList attributes =
     (case to_string_opt (field blockjson ''title'') of Inl e \<Rightarrow> Inl e | Inr title \<Rightarrow>
      case to_string name of Inl e \<Rightarrow> Inl e | Inr nm \<Rightarrow>
      case or_empty (field blockjson ''description'') of Inl e \<Rightarrow> Inl e | Inr description \<Rightarrow>
      case or_empty (field blockjson ''category'') of Inl e \<Rightarrow> Inl e | Inr category \<Rightarrow>
      case or_empty (field blockjson ''ancestor'') of Inl e \<Rightarrow> Inl e | Inr ancestor \<Rightarrow>
      case or_empty (field blockjson ''parent'') of Inl e \<Rightarrow> Inl e | Inr parent \<Rightarrow>
      case or_sorted supportsList of Inl e \<Rightarrow> Inl e | Inr supports \<Rightarrow>
      case or_sorted attributes of Inl e \<Rightarrow> Inl e | Inr attrs \<Rightarrow>
        Inr (template title nm description category ancestor parent supports attrs))"

definition readBlockJSON :: "json \<Rightarrow> error + string" where
  "readBlockJSON blockjson =
     (case get_prop blockjson ''name'' of
        Inl e \<Rightarrow> Inl e
      | Inr None \<Rightarrow> Inr []
      | Inr (Some name) \<Rightarrow>
          (case supportsList_of (field blockjson ''supports'') of
             Inl e \<Rightarrow> Inl e
           | Inr supportsList \<Rightarrow>
               (case attributes_of (field blockjson ''attributes'') of
                  Inl e \<Rightarrow> Inl e
                | Inr attributes \<Rightarrow> render blockjson name supportsList attributes)))"

text \<open>
  The script walks the directory, reads every descriptor and appends its fragment; the model
  starts from the parsed descriptors in the order the walk found them. An exception in one
  descriptor ends the run before anything is written.
\<close>

fun autogen_of :: "json list \<Rightarrow> error + string" where
  "autogen_of [] = Inr []"
| "autogen_of (file # files) =
     (case readBlockJSON file of
        Inl e \<Rightarrow> Inl e
      | Inr markup \<Rightarrow>
          (case autogen_of files of Inl e \<Rightarrow> Inl e | Inr rest \<Rightarrow> Inr (markup @ rest)))"

definition generate :: "json list \<Rightarrow> string \<Rightarrow> error + string" where
  "generate files docsContent =
     (case autogen_of files of
        Inl e \<Rightarrow> Inl e
      | Inr autogen \<Rightarrow> Inr (splice docsContent autogen))"

section \<open>The code-freeze-exception workflow\<close>

text \<open>
  \<^verbatim>\<open>/Which release does this request apply to\?.*?\n([0-9]+\.[0-9]+)/s\<close>
  \<^verbatim>\<open>/Which PR needs to be included\?.*?\n(https:\/\/github\.com\/[a-zA-Z0-9_\-]+\/[a-zA-Z0-9_\-]+\/pull\/([0-9]+))/s\<close>
  With the flag \<^verbatim>\<open>s\<close> the dot matches every character. The group of the first pattern
  spans its last three items; the second group of the second pattern is its last item.
\<close>

definition is_digit :: "char \<Rightarrow> bool" where
  "is_digit c = (CHR ''0'' \<le> c \<and> c \<le> CHR ''9'')"

definition is_repo_char :: "char \<Rightarrow> bool" where
  "is_repo_char c =
     ((CHR ''a'' \<le> c \<and> c \<le> CHR ''z'') \<or> (CHR ''A'' \<le> c \<and> c \<le> CHR ''Z'') \<or>
      (CHR ''0'' \<le> c \<and> c \<le> CHR ''9'') \<or> c = CHR ''_'' \<or> c = CHR ''-'')"

definition release_question :: string where
  "release_question = ''Which release does this request apply to?''"

definition pr_question :: string where
  "pr_question = ''Which PR needs to be included?''"

definition releaseRegex :: "rx list" where
  "releaseRegex =
     [RLit release_question, RLazy any_char, RLit nl,
      RPlus is_digit, RLit ''.'', RPlus is_digit]"

definition prRegex :: "rx list" where
  "prRegex =
     [RLit pr_question, RLazy any_char, RLit nl,
      RLit ''https://github.com/'', RPlus is_repo_char, RLit ''/'', RPlus is_repo_char,
      RLit ''/pull/'', RPlus is_digit]"

definition js_match :: "rx list \<Rightarrow> string \<Rightarrow> string list option" where
  "js_match re s = map_option snd (search re s)"

text \<open>
  The two steps: each takes the body of the issue, matches it and either sets its output or
  fails the step with its message.
\<close>

definition release_failure :: string where
  "release_failure =
     ''No valid release number found after the '' @ [CHR 0x27] @
     ''Which release does this request apply to?'' @ [CHR 0x27] @ '' section. Aborting.''"

definition pr_failure :: string where
  "pr_failure =
     ''No valid PR found after the '' @ [CHR 0x27] @ ''Which PR'' @ [CHR 0x27] @
     '' section. Aborting.''"

definition extract_release :: "string \<Rightarrow> string + string" where
  "extract_release body =
     (case js_match releaseRegex body of
        None \<Rightarrow> Inl release_failure
      | Some segs \<Rightarrow>
          (let releaseNumber = concat (take 3 (drop 3 segs))
           in if releaseNumber \<noteq> [] then Inr releaseNumber else Inl release_failure))"

definition extract_pr :: "string \<Rightarrow> string + string" where
  "extract_pr body =
     (case js_match prRegex body of
        None \<Rightarrow> Inl pr_failure
      | Some segs \<Rightarrow>
          (let prNumber = concat (drop 8 segs)
           in if prNumber \<noteq> [] then Inr prNumber else Inl pr_failure))"

text \<open>
  The approved path. Job \<^verbatim>\<open>prep\<close> extracts the release number; job \<^verbatim>\<open>cfe-approved\<close> needs
  \<^verbatim>\<open>prep\<close>, so it runs only when \<^verbatim>\<open>prep\<close> succeeded, and its steps run in order, a
  failed step skipping the steps after it. The result is the failure message of the run, or
  the commands the run issues, in order.
\<close>

record issue_event =
  body :: string
  html_url :: string
  title :: string
  repo_owner :: string
  repo_name :: string

datatype command =
    PrAddLabel string string string
  | IssueMilestone string string
  | IssueComment string string
  | SlackNotify string

definition prep :: "issue_event \<Rightarrow> string + string" where
  "prep ev = extract_release (body ev)"

definition cfe_approved :: "issue_event \<Rightarrow> string \<Rightarrow> string + command list" where
  "cfe_approved ev release_number =
     (case extract_pr (body ev) of
        Inl failure \<Rightarrow> Inl failure
      | Inr pr_number \<Rightarrow>
          Inr [PrAddLabel pr_number ''cherry pick to trunk'' (repo_owner ev @ ''/'' @ repo_name ev),
               IssueMilestone (html_url ev) (release_number @ ''.0''),
               IssueComment (html_url ev)
                 ''This request has been approved. Please merge the PR to release branch.'',
               SlackNotify ('':white_check_mark: CFE request approved: '' @ title ev @ nl @
                 html_url ev @ nl)])"

definition approved_run :: "issue_event \<Rightarrow> string + command list" where
  "approved_run ev =
     (case prep ev of
        Inl failure \<Rightarrow> Inl failure
      | Inr release_number \<Rightarrow> cfe_approved ev release_number)"

text \<open>
  What it means for a list of texts to match a pattern, read item by item, without any order
  of search.
\<close>

fun item_ok :: "rx \<Rightarrow> string \<Rightarrow> bool" where
  "item_ok (RLit l) w = (w = l)"
| "item_ok (RStar P) w = list_all P w"
| "item_ok (RLazy P) w = list_all P w"
| "item_ok (RPlus P) w = (w \<noteq> [] \<and> list_all P w)"

definition accepts :: "rx list \<Rightarrow> string list \<Rightarrow> bool" where
  "accepts re segs = list_all2 item_ok re segs"

text \<open>
  The two patterns as the specification words them: the question, followed on a later line by
  a MAJOR.MINOR number, wherever on that line; and the question, followed by a GitHub
  pull-request URL, wherever after it. The names of an owner and of a repository on GitHub are
  written with letters, digits, \<open>_\<close>, \<open>-\<close> and \<open>.\<close>.
\<close>

definition is_name_char :: "char \<Rightarrow> bool" where
  "is_name_char c = (is_repo_char c \<or> c = CHR ''.'')"

definition claimed_release_pattern :: "string \<Rightarrow> bool" where
  "claimed_release_pattern b =
     (\<exists>before between lead major minor rest.
        b = before @ release_question @ between @ nl @ lead @ major @ ''.'' @ minor @ rest \<and>
        CHR 0x0A \<notin> set lead \<and>
        major \<noteq> [] \<and> list_all is_digit major \<and> minor \<noteq> [] \<and> list_all is_digit minor)"

definition claimed_pr_pattern :: "string \<Rightarrow> bool" where
  "claimed_pr_pattern b =
     (\<exists>before between owner repo number rest.
        b = before @ pr_question @ between @
            ''https://github.com/'' @ owner @ ''/'' @ repo @ ''/pull/'' @ number @ rest \<and>
        owner \<noteq> [] \<and> list_all is_name_char owner \<and> repo \<noteq> [] \<and> list_all is_name_char repo \<and>
        number \<noteq> [] \<and> list_all is_digit number)"

text \<open>
  The two patterns with the number or the URL at the start of its line: \<open>number_line s\<close>
  says that \<open>s\<close> starts with a line break and a MAJOR.MINOR number, \<open>url_line s\<close> that it
  starts with a line break and a pull-request URL whose owner and repository are written with
  letters, digits, \<open>_\<close> and \<open>-\<close>.
\<close>

definition number_line :: "string \<Rightarrow> bool" where
  "number_line s =
     (\<exists>major minor rest.
        s = nl @ major @ ''.'' @ minor @ rest \<and>
        major \<noteq> [] \<and> list_all is_digit major \<and> minor \<noteq> [] \<and> list_all is_digit minor)"

definition url_line :: "string \<Rightarrow> bool" where
  "url_line s =
     (\<exists>owner repo number rest.
        s = nl @ ''https://github.com/'' @ owner @ ''/'' @ repo @ ''/pull/'' @ number @ rest \<and>
        owner \<noteq> [] \<and> list_all is_repo_char owner \<and> repo \<noteq> [] \<and> list_all is_repo_char repo \<and>
        number \<noteq> [] \<and> list_all is_digit number)"

definition release_pattern :: "string \<Rightarrow> bool" where
  "release_pattern b =
     (\<exists>before between major minor rest.
        b = before @ release_question @ between @ nl @ major @ ''.'' @ minor @ rest \<and>
        major \<noteq> [] \<and> list_all is_digit major \<and> minor \<noteq> [] \<and> list_all is_digit minor)"

definition pr_pattern :: "string \<Rightarrow> bool" where
  "pr_pattern b =
     (\<exists>before between owner repo number rest.
        b = before @ pr_question @ between @ nl @
            ''https://github.com/'' @ owner @ ''/'' @ repo @ ''/pull/'' @ number @ rest \<and>
        owner \<noteq> [] \<and> list_all is_repo_char owner \<and> repo \<noteq> [] \<and> list_all is_repo_char repo \<and>
        number \<noteq> [] \<and> list_all is_digit number)"

text \<open>
  Which number and which pull request the body names. \<open>first_release b n\<close>: \<open>n\<close> is the
  MAJOR.MINOR number, with all the digits of its minor part, that starts the first line after
  the first occurrence of the release question that starts with such a number.
  \<open>first_pr b p\<close>: \<open>p\<close> is the number, with all its digits, of the pull-request URL that starts
  the first line after the first occurrence of the pull-request question that starts with such
  a URL.
\<close>

definition first_release :: "string \<Rightarrow> string \<Rightarrow> bool" where
  "first_release b n =
     (\<exists>before between major minor rest.
        n = major @ ''.'' @ minor \<and>
        b = before @ release_question @ between @ nl @ major @ ''.'' @ minor @ rest \<and>
        major \<noteq> [] \<and> list_all is_digit major \<and> minor \<noteq> [] \<and> list_all is_digit minor \<and>
        takeWhile is_digit rest = [] \<and>
        (\<forall>j<length before. \<not> prefix release_question (drop j b)) \<and>
        (\<forall>j<length between.
           \<not> number_line (drop j (between @ nl @ major @ ''.'' @ minor @ rest))))"

definition first_pr :: "string \<Rightarrow> string \<Rightarrow> bool" where
  "first_pr b p =
     (\<exists>before between owner repo rest.
        b = before @ pr_question @ between @ nl @
            ''https://github.com/'' @ owner @ ''/'' @ repo @ ''/pull/'' @ p @ rest \<and>
        owner \<noteq> [] \<and> list_all is_repo_char owner \<and> repo \<noteq> [] \<and> list_all is_repo_char repo \<and>
        p \<noteq> [] \<and> list_all is_digit p \<and>
        takeWhile is_digit rest = [] \<and>
        (\<forall>j<length before. \<not> prefix pr_question (drop j b)) \<and>
        (\<forall>j<length between.
           \<not> url_line (drop j (between @ nl @
              ''https://github.com/'' @ owner @ ''/'' @ repo @ ''/pull/'' @ p @ rest))))"

section \<open>Properties of the splice\<close>

subsection \<open>Occurrences of a text\<close>

lemma occurrences_from_iff:
  "k \<in> set (occurrences_from i t s) \<longleftrightarrow>
     i \<le> k \<and> k - i \<le> length s \<and> prefix t (drop (k - i) s)"
proof (induction s arbitrary: i)
  case Nil
  then show ?case by auto
next
  case (Cons c cs)
  show ?case
  proof (cases "k \<le> i")
    case True
    then show ?thesis by (auto simp: Cons.IH)
  next
    case False
    then have "k - i = Suc (k - Suc i)" by simp
    then show ?thesis using False by (auto simp: Cons.IH)
  qed
qed

lemma sorted_occurrences_from: "sorted (occurrences_from i t s)"
  by (induction s arbitrary: i) (auto simp: occurrences_from_iff)

lemma occurrences_iff: "i \<in> set (occurrences t s) \<longleftrightarrow> i \<le> length s \<and> prefix t (drop i s)"
  by (simp add: occurrences_def occurrences_from_iff)

subsection \<open>The token pattern matches from the first start token to the last end token\<close>

lemma bt_any_Cons:
  "bt (RStar any_char # r) (c # cs) =
     (case bt (RStar any_char # r) cs of
        Some segs \<Rightarrow> Some (push c segs)
      | None \<Rightarrow> map_option ((#) []) (bt r (c # cs)))"
proof -
  have "any_char c" by (simp add: any_char_def)
  then show ?thesis by (simp only: bt.simps if_True)
qed

lemma bt_star_lit_None:
  "(\<forall>n\<le>length s. \<not> prefix e (drop n s)) \<Longrightarrow> bt [RStar any_char, RLit e] s = None"
proof (induction s)
  case Nil
  then show ?case by simp
next
  case (Cons c cs)
  have "\<forall>n\<le>length cs. \<not> prefix e (drop n cs)"
  proof (intro allI impI)
    fix n assume "n \<le> length cs"
    then have "\<not> prefix e (drop (Suc n) (c # cs))"
      using Cons.prems[rule_format, of "Suc n"] by simp
    then show "\<not> prefix e (drop n cs)" by simp
  qed
  then have "bt [RStar any_char, RLit e] cs = None" by (rule Cons.IH)
  moreover have "\<not> prefix e (c # cs)" using Cons.prems[rule_format, of 0] by simp
  ultimately show ?case by (simp add: bt_any_Cons del: bt.simps(4))
qed

lemma bt_star_lit_Some:
  "n \<le> length s \<Longrightarrow> prefix e (drop n s) \<Longrightarrow>
   (\<forall>m. n < m \<and> m \<le> length s \<longrightarrow> \<not> prefix e (drop m s)) \<Longrightarrow>
   bt [RStar any_char, RLit e] s = Some [take n s, e]"
proof (induction s arbitrary: n)
  case Nil
  then show ?case by simp
next
  case (Cons c cs)
  show ?case
  proof (cases n)
    case 0
    have "\<forall>k\<le>length cs. \<not> prefix e (drop k cs)"
    proof (intro allI impI)
      fix k assume "k \<le> length cs"
      then have "\<not> prefix e (drop (Suc k) (c # cs))"
        using Cons.prems(3)[rule_format, of "Suc k"] 0 by simp
      then show "\<not> prefix e (drop k cs)" by simp
    qed
    then have "bt [RStar any_char, RLit e] cs = None" by (rule bt_star_lit_None)
    moreover have "prefix e (c # cs)" using Cons.prems(2) 0 by simp
    ultimately show ?thesis using 0 by (simp add: bt_any_Cons del: bt.simps(4))
  next
    case (Suc k)
    have 1: "k \<le> length cs" using Cons.prems(1) Suc by simp
    have 2: "prefix e (drop k cs)" using Cons.prems(2) Suc by simp
    have 3: "\<forall>m. k < m \<and> m \<le> length cs \<longrightarrow> \<not> prefix e (drop m cs)"
    proof (intro allI impI)
      fix m assume "k < m \<and> m \<le> length cs"
      then have "\<not> prefix e (drop (Suc m) (c # cs))"
        using Cons.prems(3)[rule_format, of "Suc m"] Suc by simp
      then show "\<not> prefix e (drop m cs)" by simp
    qed
    have "bt [RStar any_char, RLit e] cs = Some [take k cs, e]"
      using Cons.IH[OF 1 2 3] .
    then show ?thesis using Suc by (simp add: bt_any_Cons push_def del: bt.simps(4))
  qed
qed

lemma search_None:
  "(\<forall>k\<le>length s. bt re (drop k s) = None) \<Longrightarrow> search re s = None"
proof (induction s)
  case Nil
  then show ?case by simp
next
  case (Cons c cs)
  have "\<forall>k\<le>length cs. bt re (drop k cs) = None"
  proof (intro allI impI)
    fix k assume "k \<le> length cs"
    then have "bt re (drop (Suc k) (c # cs)) = None"
      using Cons.prems[rule_format, of "Suc k"] by simp
    then show "bt re (drop k cs) = None" by simp
  qed
  then have "search re cs = None" by (rule Cons.IH)
  moreover have "bt re (c # cs) = None" using Cons.prems[rule_format, of 0] by simp
  ultimately show ?case by simp
qed

lemma search_Some:
  "k \<le> length s \<Longrightarrow> bt re (drop k s) = Some segs \<Longrightarrow>
   (\<forall>j<k. bt re (drop j s) = None) \<Longrightarrow>
   search re s = Some (k, segs)"
proof (induction s arbitrary: k)
  case Nil
  then show ?case by simp
next
  case (Cons c cs)
  show ?case
  proof (cases k)
    case 0
    then show ?thesis using Cons.prems(2) by simp
  next
    case (Suc m)
    have 0: "bt re (c # cs) = None" using Cons.prems(3)[rule_format, of 0] Suc by simp
    have 1: "m \<le> length cs" using Cons.prems(1) Suc by simp
    have 2: "bt re (drop m cs) = Some segs" using Cons.prems(2) Suc by simp
    have 3: "\<forall>j<m. bt re (drop j cs) = None"
    proof (intro allI impI)
      fix j assume "j < m"
      then have "bt re (drop (Suc j) (c # cs)) = None"
        using Cons.prems(3)[rule_format, of "Suc j"] Suc by simp
      then show "bt re (drop j cs) = None" by simp
    qed
    have "search re cs = Some (m, segs)" using Cons.IH[OF 1 2 3] .
    then show ?thesis using 0 Suc by simp
  qed
qed

lemma bt_region:
  assumes i: "i \<le> length doc" "prefix S (drop i doc)"
    and j: "j \<le> length doc" "prefix E (drop j doc)" "i + length S \<le> j"
    and last: "\<forall>m. j < m \<and> m \<le> length doc \<longrightarrow> \<not> prefix E (drop m doc)"
  shows "bt [RLit S, RStar any_char, RLit E] (drop i doc) =
           Some [S, take (j - (i + length S)) (drop (i + length S) doc), E]"
proof -
  let ?s = "drop (i + length S) doc"
  let ?n = "j - (i + length S)"
  have 1: "?n \<le> length ?s" using j by simp
  have 2: "prefix E (drop ?n ?s)" using j by simp
  have 3: "\<forall>m. ?n < m \<and> m \<le> length ?s \<longrightarrow> \<not> prefix E (drop m ?s)"
  proof (intro allI impI)
    fix m assume m: "?n < m \<and> m \<le> length ?s"
    then have "j < m + (i + length S) \<and> m + (i + length S) \<le> length doc" using j by auto
    then have "\<not> prefix E (drop (m + (i + length S)) doc)" using last by blast
    then show "\<not> prefix E (drop m ?s)" by simp
  qed
  have "bt [RStar any_char, RLit E] ?s = Some [take ?n ?s, E]"
    using bt_star_lit_Some[OF 1 2 3] .
  then show ?thesis using i(2) by (simp add: add.commute)
qed

lemma bt_no_region:
  assumes "k \<le> length doc"
    and "\<forall>m. k + length S \<le> m \<and> m \<le> length doc \<longrightarrow> \<not> prefix E (drop m doc)"
  shows "bt [RLit S, RStar any_char, RLit E] (drop k doc) = None"
proof (cases "prefix S (drop k doc)")
  case False
  then show ?thesis by simp
next
  case True
  let ?s = "drop (k + length S) doc"
  have "\<forall>n\<le>length ?s. \<not> prefix E (drop n ?s)"
  proof (intro allI impI)
    fix n assume n: "n \<le> length ?s"
    have "length S \<le> length (drop k doc)" using True by (rule prefix_length_le)
    then have "k + length S \<le> n + (k + length S) \<and> n + (k + length S) \<le> length doc"
      using n assms(1) by auto
    then have "\<not> prefix E (drop (n + (k + length S)) doc)" using assms(2) by blast
    then show "\<not> prefix E (drop n ?s)" by simp
  qed
  then have "bt [RStar any_char, RLit E] ?s = None" by (rule bt_star_lit_None)
  then show ?thesis using True by (simp add: add.commute)
qed

lemma sorted_occurrences: "sorted (occurrences t s)"
  by (simp add: occurrences_def sorted_occurrences_from)

lemma hd_occurrences:
  assumes "occurrences t s \<noteq> []"
  shows "hd (occurrences t s) \<in> set (occurrences t s)"
    and "\<And>i. i \<in> set (occurrences t s) \<Longrightarrow> hd (occurrences t s) \<le> i"
proof -
  show "hd (occurrences t s) \<in> set (occurrences t s)" using assms by simp
  fix i assume "i \<in> set (occurrences t s)"
  then show "hd (occurrences t s) \<le> i"
    using sorted_occurrences[of t s] by (cases "occurrences t s") auto
qed

lemma sorted_le_last: "sorted xs \<Longrightarrow> x \<in> set xs \<Longrightarrow> (x::nat) \<le> last xs"
  by (induction xs) auto

lemma last_occurrences:
  assumes "occurrences t s \<noteq> []"
  shows "last (occurrences t s) \<in> set (occurrences t s)"
    and "\<And>i. i \<in> set (occurrences t s) \<Longrightarrow> i \<le> last (occurrences t s)"
proof -
  show "last (occurrences t s) \<in> set (occurrences t s)" using assms by simp
  fix i assume "i \<in> set (occurrences t s)"
  then show "i \<le> last (occurrences t s)"
    using sorted_le_last[OF sorted_occurrences] by blast
qed

lemma search_marked:
  assumes "marked doc"
  defines "i \<equiv> hd (occurrences START_TOKEN doc)"
    and "j \<equiv> last (occurrences END_TOKEN doc)"
  shows "search TOKEN_PATTERN doc =
           Some (i,
             [START_TOKEN, take (j - (i + length START_TOKEN)) (drop (i + length START_TOKEN) doc),
              END_TOKEN])"
    and "i + length START_TOKEN \<le> j" and "j + length END_TOKEN \<le> length doc"
    and "prefix START_TOKEN (drop i doc)" and "prefix END_TOKEN (drop j doc)"
proof -
  obtain i0 j0 where i0: "i0 \<in> set (occurrences START_TOKEN doc)"
    and j0: "j0 \<in> set (occurrences END_TOKEN doc)" and le: "i0 + length START_TOKEN \<le> j0"
    using assms(1) unfolding marked_def by blast
  have ne: "occurrences START_TOKEN doc \<noteq> []" "occurrences END_TOKEN doc \<noteq> []"
    using i0 j0 by auto
  have i_in: "i \<in> set (occurrences START_TOKEN doc)" and i_min: "i \<le> i0"
    unfolding i_def using hd_occurrences[OF ne(1)] i0 by auto
  have j_in: "j \<in> set (occurrences END_TOKEN doc)" and j_max: "j0 \<le> j"
    unfolding j_def using last_occurrences[OF ne(2)] j0 by auto
  show ij: "i + length START_TOKEN \<le> j" using i_min j_max le by simp
  have i: "i \<le> length doc" "prefix START_TOKEN (drop i doc)"
    using i_in by (simp_all add: occurrences_iff)
  have j: "j \<le> length doc" "prefix END_TOKEN (drop j doc)"
    using j_in by (simp_all add: occurrences_iff)
  show "prefix START_TOKEN (drop i doc)" "prefix END_TOKEN (drop j doc)" by (rule i(2), rule j(2))
  have "length END_TOKEN \<le> length (drop j doc)" using j(2) by (rule prefix_length_le)
  then show "j + length END_TOKEN \<le> length doc" using j(1) by simp
  have last: "\<forall>m. j < m \<and> m \<le> length doc \<longrightarrow> \<not> prefix END_TOKEN (drop m doc)"
  proof (intro allI impI notI)
    fix m assume m: "j < m \<and> m \<le> length doc" and "prefix END_TOKEN (drop m doc)"
    then have "m \<in> set (occurrences END_TOKEN doc)" by (simp add: occurrences_iff)
    then have "m \<le> j" unfolding j_def using last_occurrences(2)[OF ne(2)] by blast
    then show False using m by simp
  qed
  have first: "\<forall>k<i. bt TOKEN_PATTERN (drop k doc) = None"
  proof (intro allI impI)
    fix k assume k: "k < i"
    have "\<not> prefix START_TOKEN (drop k doc)"
    proof
      assume "prefix START_TOKEN (drop k doc)"
      then have "k \<in> set (occurrences START_TOKEN doc)" using k i(1) by (simp add: occurrences_iff)
      then have "i \<le> k" unfolding i_def using hd_occurrences(2)[OF ne(1)] by blast
      then show False using k by simp
    qed
    then show "bt TOKEN_PATTERN (drop k doc) = None" by (simp add: TOKEN_PATTERN_def)
  qed
  have "bt TOKEN_PATTERN (drop i doc) =
          Some [START_TOKEN, take (j - (i + length START_TOKEN)) (drop (i + length START_TOKEN) doc),
                END_TOKEN]"
    unfolding TOKEN_PATTERN_def using bt_region[OF i j ij last] .
  then show "search TOKEN_PATTERN doc =
           Some (i,
             [START_TOKEN, take (j - (i + length START_TOKEN)) (drop (i + length START_TOKEN) doc),
              END_TOKEN])"
    using search_Some[OF i(1) _ first] by simp
qed

lemma search_unmarked:
  assumes "\<not> marked doc"
  shows "search TOKEN_PATTERN doc = None"
proof (rule search_None, intro allI impI)
  fix k assume k: "k \<le> length doc"
  show "bt TOKEN_PATTERN (drop k doc) = None"
  proof (cases "prefix START_TOKEN (drop k doc)")
    case False
    then show ?thesis by (simp add: TOKEN_PATTERN_def)
  next
    case True
    then have kin: "k \<in> set (occurrences START_TOKEN doc)" using k by (simp add: occurrences_iff)
    have "\<forall>m. k + length START_TOKEN \<le> m \<and> m \<le> length doc \<longrightarrow> \<not> prefix END_TOKEN (drop m doc)"
    proof (intro allI impI notI)
      fix m assume m: "k + length START_TOKEN \<le> m \<and> m \<le> length doc"
        and "prefix END_TOKEN (drop m doc)"
      then have "m \<in> set (occurrences END_TOKEN doc)" by (simp add: occurrences_iff)
      then show False using assms kin m unfolding marked_def by blast
    qed
    then show ?thesis unfolding TOKEN_PATTERN_def by (rule bt_no_region[OF k])
  qed
qed

lemma region_text:
  assumes "prefix S (drop i doc)" and "prefix E (drop j doc)" and "i + length S \<le> j"
  shows "S @ take (j - (i + length S)) (drop (i + length S) doc) @ E =
           take (j + length E - i) (drop i doc)"
proof -
  let ?n = "j - (i + length S)"
  have a: "take (length S) (drop i doc) = S"
    using assms(1) by (metis append_eq_conv_conj prefixE)
  have b: "take (length E) (drop j doc) = E"
    using assms(2) by (metis append_eq_conv_conj prefixE)
  have "j + length E - i = length S + (?n + length E)" using assms(3) by simp
  then have "take (j + length E - i) (drop i doc) =
      take (length S) (drop i doc) @ take ?n (drop (length S) (drop i doc)) @
      take (length E) (drop ?n (drop (length S) (drop i doc)))"
    by (simp only: take_add)
  also have "drop ?n (drop (length S) (drop i doc)) = drop j doc" using assms(3) by simp
  also have "drop (length S) (drop i doc) = drop (i + length S) doc" by (simp add: add.commute)
  finally show ?thesis using a b by simp
qed

lemma splice_marked:
  assumes "marked doc"
  defines "i \<equiv> hd (occurrences START_TOKEN doc)"
    and "j \<equiv> last (occurrences END_TOKEN doc)"
  shows "splice doc autogen =
           take i doc @
           get_substitution (take (j + length END_TOKEN - i) (drop i doc)) (take i doc)
             (drop (j + length END_TOKEN) doc) (START_TOKEN @ nl @ autogen @ nl @ END_TOKEN) @
           drop (j + length END_TOKEN) doc"
proof -
  let ?mid = "take (j - (i + length START_TOKEN)) (drop (i + length START_TOKEN) doc)"
  have s: "search TOKEN_PATTERN doc = Some (i, [START_TOKEN, ?mid, END_TOKEN])"
    and ij: "i + length START_TOKEN \<le> j" and jl: "j + length END_TOKEN \<le> length doc"
    and i: "prefix START_TOKEN (drop i doc)" and j: "prefix END_TOKEN (drop j doc)"
    unfolding i_def j_def using search_marked[OF assms(1)] by blast+
  have m: "START_TOKEN @ ?mid @ END_TOKEN = take (j + length END_TOKEN - i) (drop i doc)"
    using region_text[OF i j ij] .
  have c: "concat [START_TOKEN, ?mid, END_TOKEN] = take (j + length END_TOKEN - i) (drop i doc)"
    using m by simp
  have l: "i + length (take (j + length END_TOKEN - i) (drop i doc)) = j + length END_TOKEN"
    using ij jl by simp
  show ?thesis
    unfolding splice_def replace_def s by (simp only: option.case prod.case Let_def c l)
qed

subsection \<open>Documents with and without the region\<close>

lemma marked_iff: "marked doc \<longleftrightarrow> (\<exists>a b c. doc = a @ START_TOKEN @ b @ END_TOKEN @ c)"
proof
  assume "marked doc"
  then obtain i j where i: "i \<in> set (occurrences START_TOKEN doc)"
    and j: "j \<in> set (occurrences END_TOKEN doc)" and ij: "i + length START_TOKEN \<le> j"
    unfolding marked_def by blast
  have p: "prefix START_TOKEN (drop i doc)" "prefix END_TOKEN (drop j doc)"
    using i j by (simp_all add: occurrences_iff)
  let ?n = "j + length END_TOKEN - i"
  have "doc = take i doc @ take ?n (drop i doc) @ drop ?n (drop i doc)"
    by (simp only: append_take_drop_id)
  then have "doc = take i doc @ START_TOKEN @
      take (j - (i + length START_TOKEN)) (drop (i + length START_TOKEN) doc) @ END_TOKEN @
      drop ?n (drop i doc)"
    using region_text[OF p ij] by (metis append_assoc)
  then show "\<exists>a b c. doc = a @ START_TOKEN @ b @ END_TOKEN @ c" by blast
next
  assume "\<exists>a b c. doc = a @ START_TOKEN @ b @ END_TOKEN @ c"
  then obtain a b c where d: "doc = a @ START_TOKEN @ b @ END_TOKEN @ c" by blast
  have "length a \<in> set (occurrences START_TOKEN doc)"
    unfolding occurrences_iff d by simp
  moreover have "drop (length a + length START_TOKEN + length b) doc = END_TOKEN @ c"
    unfolding d by simp
  then have "length a + length START_TOKEN + length b \<in> set (occurrences END_TOKEN doc)"
    unfolding occurrences_iff by (simp add: d)
  ultimately show "marked doc" unfolding marked_def by (meson le_add1)
qed

lemma prefix_hd: "prefix (e # es) (u @ r) \<Longrightarrow> u \<noteq> [] \<Longrightarrow> hd u = e"
  by (cases u) auto

lemma END_TOKEN_hd: "END_TOKEN = CHR ''<'' # tl END_TOKEN"
  by (simp add: END_TOKEN_def)

lemma START_TOKEN_tl: "CHR ''<'' \<notin> set (tl START_TOKEN)"
  by (simp add: START_TOKEN_def)

lemma tokens_apart:
  assumes "prefix START_TOKEN (drop i doc)" and "prefix END_TOKEN (drop j doc)" and "i < j"
  shows "i + length START_TOKEN \<le> j"
proof (rule ccontr)
  assume "\<not> i + length START_TOKEN \<le> j"
  then have d: "0 < j - i" "j - i < length START_TOKEN" using assms(3) by auto
  obtain r where r: "drop i doc = START_TOKEN @ r" using assms(1) by (auto elim: prefixE)
  have "drop j doc = drop (j - i) (drop i doc)" using assms(3) by simp
  also have "\<dots> = drop (j - i) START_TOKEN @ r" using d(2) by (simp add: r)
  finally have "prefix (CHR ''<'' # tl END_TOKEN) (drop (j - i) START_TOKEN @ r)"
    using assms(2) END_TOKEN_hd by simp
  moreover have ne: "drop (j - i) START_TOKEN \<noteq> []" using d(2) by simp
  ultimately have "hd (drop (j - i) START_TOKEN) = CHR ''<''" by (rule prefix_hd)
  then have "START_TOKEN ! (j - i) = CHR ''<''"
    using d(2) by (simp add: hd_drop_conv_nth)
  moreover obtain k where k: "j - i = Suc k" using d(1) by (cases "j - i") auto
  moreover have kl: "k < length (tl START_TOKEN)" using d(2) k by simp
  ultimately have "tl START_TOKEN ! k = CHR ''<''" using nth_tl[OF kl] by simp
  then have "CHR ''<'' \<in> set (tl START_TOKEN)" using nth_mem[OF kl] by simp
  then show False using START_TOKEN_tl by simp
qed

text \<open>
  Claim C8. A document in which the pattern \<open>START_TOKEN[^]*END_TOKEN\<close> does not occur, that is,
  one that cannot be cut into some text, the start token, some text, the end token and some text,
  is returned by \<open>splice\<close> as it is, whatever was generated: nothing is raised and no
  character changes.
\<close>

theorem splice_no_markers:
  assumes "\<not> (\<exists>a b c. doc = a @ START_TOKEN @ b @ END_TOKEN @ c)"
  shows "splice doc autogen = doc"
proof -
  have "\<not> marked doc" using assms by (simp add: marked_iff)
  then have "search TOKEN_PATTERN doc = None" by (rule search_unmarked)
  then show ?thesis by (simp add: splice_def replace_def)
qed

text \<open>
  Claim C2. When the start token occurs exactly once in the document (at index \<open>i\<close>), the end
  token exactly once (at index \<open>j\<close>) and the start token comes first, \<open>splice\<close> returns the
  characters before index \<open>i\<close>, then the replacement for the span from the start token through
  the end token, then the characters after the end token: everything strictly outside the span
  is kept as it was, for every generated fragment.
\<close>

theorem splice_frame:
  assumes "occurrences START_TOKEN doc = [i]" and "occurrences END_TOKEN doc = [j]" and "i < j"
  shows "splice doc autogen =
           take i doc @
           get_substitution (take (j + length END_TOKEN - i) (drop i doc)) (take i doc)
             (drop (j + length END_TOKEN) doc) (START_TOKEN @ nl @ autogen @ nl @ END_TOKEN) @
           drop (j + length END_TOKEN) doc"
proof -
  have i: "i \<in> set (occurrences START_TOKEN doc)" and j: "j \<in> set (occurrences END_TOKEN doc)"
    using assms by simp_all
  then have "i + length START_TOKEN \<le> j"
    using tokens_apart[of i doc j] assms(3) by (simp add: occurrences_iff)
  then have "marked doc" unfolding marked_def using i j by blast
  then show ?thesis using splice_marked[of doc autogen] assms by simp
qed

theorem splice_no_markers_witness:
  "\<not> (\<exists>a b c. END_TOKEN @ ''text'' @ START_TOKEN = a @ START_TOKEN @ b @ END_TOKEN @ c) \<and>
   splice (END_TOKEN @ ''text'' @ START_TOKEN) ''## New'' = END_TOKEN @ ''text'' @ START_TOKEN"
proof -
  have "\<not> marked (END_TOKEN @ ''text'' @ START_TOKEN)" by code_simp
  then have h: "\<not> (\<exists>a b c. END_TOKEN @ ''text'' @ START_TOKEN = a @ START_TOKEN @ b @ END_TOKEN @ c)"
    by (simp only: marked_iff simp_thms)
  show ?thesis by (rule conjI[OF h splice_no_markers[OF h]])
qed

theorem splice_frame_witness:
  "occurrences START_TOKEN (''# Title'' @ nl @ START_TOKEN @ nl @ ''old'' @ nl @ END_TOKEN @ nl @ ''Footer'') = [8] \<and>
   occurrences END_TOKEN (''# Title'' @ nl @ START_TOKEN @ nl @ ''old'' @ nl @ END_TOKEN @ nl @ ''Footer'') = [55] \<and>
   splice (''# Title'' @ nl @ START_TOKEN @ nl @ ''old'' @ nl @ END_TOKEN @ nl @ ''Footer'') ''## New'' =
     ''# Title'' @ nl @ START_TOKEN @ nl @ ''## New'' @ nl @ END_TOKEN @ nl @ ''Footer''"
proof -
  let ?doc = "''# Title'' @ nl @ START_TOKEN @ nl @ ''old'' @ nl @ END_TOKEN @ nl @ ''Footer''"
  have s: "occurrences START_TOKEN ?doc = [8]" by code_simp
  have e: "occurrences END_TOKEN ?doc = [55]" by code_simp
  have r: "take 8 ?doc @
           get_substitution (take (55 + length END_TOKEN - 8) (drop 8 ?doc)) (take 8 ?doc)
             (drop (55 + length END_TOKEN) ?doc) (START_TOKEN @ nl @ ''## New'' @ nl @ END_TOKEN) @
           drop (55 + length END_TOKEN) ?doc =
         ''# Title'' @ nl @ START_TOKEN @ nl @ ''## New'' @ nl @ END_TOKEN @ nl @ ''Footer''"
    by code_simp
  have lt: "(8::nat) < 55" by simp
  have "splice ?doc ''## New'' =
      ''# Title'' @ nl @ START_TOKEN @ nl @ ''## New'' @ nl @ END_TOKEN @ nl @ ''Footer''"
    using splice_frame[OF s e lt, of "''## New''"] r by (rule trans)
  then show ?thesis using s e by (intro conjI)
qed

text \<open>
  Claim C10. A document with two marker pairs and hand-written text between them: the start token
  occurs at 6 and 113, the end token at 53 and 160, and \<open>splice\<close> replaces the one span from the
  first start token through the last end token, so the text between the two regions, present
  in the document, is absent from the result.
\<close>

theorem splice_greedy_example:
  "occurrences START_TOKEN
     (''intro'' @ nl @ START_TOKEN @ nl @ ''one'' @ nl @ END_TOKEN @ nl @ ''hand-written notes'' @ nl @
      START_TOKEN @ nl @ ''two'' @ nl @ END_TOKEN @ nl @ ''outro'') = [6, 113] \<and>
   occurrences END_TOKEN
     (''intro'' @ nl @ START_TOKEN @ nl @ ''one'' @ nl @ END_TOKEN @ nl @ ''hand-written notes'' @ nl @
      START_TOKEN @ nl @ ''two'' @ nl @ END_TOKEN @ nl @ ''outro'') = [53, 160] \<and>
   splice
     (''intro'' @ nl @ START_TOKEN @ nl @ ''one'' @ nl @ END_TOKEN @ nl @ ''hand-written notes'' @ nl @
      START_TOKEN @ nl @ ''two'' @ nl @ END_TOKEN @ nl @ ''outro'') ''## New'' =
     ''intro'' @ nl @ START_TOKEN @ nl @ ''## New'' @ nl @ END_TOKEN @ nl @ ''outro'' \<and>
   sublist ''hand-written notes''
     (''intro'' @ nl @ START_TOKEN @ nl @ ''one'' @ nl @ END_TOKEN @ nl @ ''hand-written notes'' @ nl @
      START_TOKEN @ nl @ ''two'' @ nl @ END_TOKEN @ nl @ ''outro'') \<and>
   \<not> sublist ''hand-written notes''
     (splice
       (''intro'' @ nl @ START_TOKEN @ nl @ ''one'' @ nl @ END_TOKEN @ nl @ ''hand-written notes'' @ nl @
        START_TOKEN @ nl @ ''two'' @ nl @ END_TOKEN @ nl @ ''outro'') ''## New'')"
  by code_simp

subsection \<open>Running the generator again\<close>

lemma get_substitution_plain: "CHR ''$'' \<notin> set t \<Longrightarrow> get_substitution m p q t = t"
  by (induction m p q t rule: get_substitution.induct) auto

lemma prefix_short: "length t \<le> length a \<Longrightarrow> prefix t (a @ b) \<longleftrightarrow> prefix t a"
  by (auto simp: prefix_append dest: prefix_length_le)

lemma replacement_plain:
  assumes "CHR ''$'' \<notin> set autogen"
  shows "get_substitution m p q (START_TOKEN @ nl @ autogen @ nl @ END_TOKEN) =
           START_TOKEN @ nl @ autogen @ nl @ END_TOKEN"
proof -
  have "CHR ''$'' \<notin> set START_TOKEN" "CHR ''$'' \<notin> set END_TOKEN" "CHR ''$'' \<notin> set nl"
    by (simp_all add: START_TOKEN_def END_TOKEN_def nl_def)
  then show ?thesis using assms by (intro get_substitution_plain) simp
qed

lemma splice_idempotent_plain:
  assumes plain: "CHR ''$'' \<notin> set autogen"
  shows "splice (splice doc autogen) autogen = splice doc autogen"
proof (cases "marked doc")
  case False
  then have "search TOKEN_PATTERN doc = None" by (rule search_unmarked)
  then have "splice doc autogen = doc" by (simp add: splice_def replace_def)
  then show ?thesis by simp
next
  case True
  define i where "i = hd (occurrences START_TOKEN doc)"
  define j where "j = last (occurrences END_TOKEN doc)"
  define pre where "pre = take i doc"
  define post where "post = drop (j + length END_TOKEN) doc"
  define head where "head = START_TOKEN @ nl @ autogen @ nl"
  define R where "R = pre @ head @ END_TOKEN @ post"
  have ij: "i + length START_TOKEN \<le> j" and jl: "j + length END_TOKEN \<le> length doc"
    and pi: "prefix START_TOKEN (drop i doc)" and pj: "prefix END_TOKEN (drop j doc)"
    unfolding i_def j_def using search_marked[OF True] by blast+
  have ne: "occurrences START_TOKEN doc \<noteq> []" "occurrences END_TOKEN doc \<noteq> []"
    using True unfolding marked_def by auto
  have i_min: "\<And>k. k \<le> length doc \<Longrightarrow> prefix START_TOKEN (drop k doc) \<Longrightarrow> i \<le> k"
    unfolding i_def using hd_occurrences(2)[OF ne(1)] by (simp add: occurrences_iff)
  have j_max: "\<And>m. m \<le> length doc \<Longrightarrow> prefix END_TOKEN (drop m doc) \<Longrightarrow> m \<le> j"
    unfolding j_def using last_occurrences(2)[OF ne(2)] by (simp add: occurrences_iff)
  have lpre: "length pre = i" unfolding pre_def using ij jl by simp
  have first: "splice doc autogen = R"
    using splice_marked[OF True, of autogen]
    by (simp add: replacement_plain[OF plain] R_def pre_def post_def head_def i_def j_def)
  obtain x where docx: "drop i doc = START_TOKEN @ x" using pi by (auto elim: prefixE)
  have doc_pre: "doc = pre @ START_TOKEN @ x"
    unfolding pre_def using docx by (metis append_take_drop_id)
  have R_pre: "R = pre @ START_TOKEN @ (nl @ autogen @ nl @ END_TOKEN @ post)"
    by (simp add: R_def head_def)
  have tail: "drop j doc = END_TOKEN @ post"
  proof -
    have "take (length END_TOKEN) (drop j doc) = END_TOKEN"
      using pj by (metis append_eq_conv_conj prefixE)
    then show ?thesis unfolding post_def
      by (metis add.commute append_take_drop_id drop_drop)
  qed
  define j' where "j' = length (pre @ head)"
  have Rtail: "drop j' R = END_TOKEN @ post" by (simp add: j'_def R_def)
  have S1: "i \<in> set (occurrences START_TOKEN R)"
    unfolding occurrences_iff by (simp add: R_pre lpre)
  have S2: "i \<le> k" if "k \<in> set (occurrences START_TOKEN R)" for k
  proof (rule ccontr)
    assume "\<not> i \<le> k"
    then have k: "k < i" by simp
    have len: "length START_TOKEN \<le> length (drop k pre @ START_TOKEN)" by simp
    have "prefix START_TOKEN (drop k R)" using that by (simp add: occurrences_iff)
    then have "prefix START_TOKEN ((drop k pre @ START_TOKEN) @ (nl @ autogen @ nl @ END_TOKEN @ post))"
      using k by (simp add: R_pre lpre)
    then have "prefix START_TOKEN (drop k pre @ START_TOKEN)"
      using prefix_short[OF len] by blast
    then have "prefix START_TOKEN ((drop k pre @ START_TOKEN) @ x)"
      using prefix_short[OF len] by blast
    then have "prefix START_TOKEN (drop k doc)"
      using k by (subst doc_pre) (simp add: lpre)
    moreover have "k \<le> length doc" using k ij jl by simp
    ultimately show False using i_min k by fastforce
  qed
  have E1: "j' \<in> set (occurrences END_TOKEN R)"
    unfolding occurrences_iff using Rtail by (simp add: j'_def R_def)
  have E2: "m \<le> j'" if "m \<in> set (occurrences END_TOKEN R)" for m
  proof (rule ccontr)
    assume "\<not> m \<le> j'"
    then have m: "j' < m" by simp
    have mR: "m \<le> length R" and pm: "prefix END_TOKEN (drop m R)"
      using that by (simp_all add: occurrences_iff)
    have lR: "length R = j' + length (END_TOKEN @ post)" by (simp add: j'_def R_def)
    have "drop m R = drop (m - j') (drop j' R)" using m by simp
    also have "\<dots> = drop (m - j') (drop j doc)" by (simp only: Rtail tail)
    also have "\<dots> = drop (j + (m - j')) doc" by (simp add: add.commute)
    finally have "prefix END_TOKEN (drop (j + (m - j')) doc)" using pm by simp
    moreover have "length doc = j + length (END_TOKEN @ post)"
      using jl by (simp add: post_def)
    then have "j + (m - j') \<le> length doc" using mR lR m by simp
    ultimately have "j + (m - j') \<le> j" using j_max by blast
    then show False using m by simp
  qed
  have le: "i + length START_TOKEN \<le> j'" by (simp add: j'_def head_def lpre)
  have mR: "marked R" unfolding marked_def using S1 E1 le by blast
  have neR: "occurrences START_TOKEN R \<noteq> []" "occurrences END_TOKEN R \<noteq> []"
    using S1 E1 by auto
  have hdR: "hd (occurrences START_TOKEN R) = i"
    using hd_occurrences[OF neR(1)] S1 S2 by (simp add: antisym)
  have lastR: "last (occurrences END_TOKEN R) = j'"
    using last_occurrences[OF neR(2)] E1 E2 by (simp add: antisym)
  have "splice R autogen =
      take i R @ (START_TOKEN @ nl @ autogen @ nl @ END_TOKEN) @ drop (j' + length END_TOKEN) R"
    using splice_marked[OF mR, of autogen]
    by (simp only: hdR lastR replacement_plain[OF plain])
  also have "take i R = pre" by (simp add: R_def lpre)
  also have "drop (j' + length END_TOKEN) R = post" by (simp add: j'_def R_def)
  finally have "splice R autogen = R" by (simp add: R_def head_def)
  then show ?thesis by (simp add: first)
qed


lemma generate_idempotent_plain:
  assumes "autogen_of files = Inr autogen" and "CHR ''$'' \<notin> set autogen"
    and "generate files doc = Inr doc'"
  shows "generate files doc' = Inr doc'"
proof -
  have "doc' = splice doc autogen" using assms(1,3) by (simp add: generate_def)
  then show ?thesis
    using splice_idempotent_plain[OF assms(2), of doc] by (simp add: generate_def assms(1))
qed

text \<open>
  Claim C3, on the code. The only descriptor is
  \<open>{name: "woo/x", title: "X", description: "Save $& more"}\<close> and the document has an empty
  marked region. The first run writes the old region into the description, in place of
  \<open>$&\<close>; the second run, on the result of the first and with the same descriptor, writes the
  region of the first run there, so its result differs from the result of the first run.
\<close>

theorem generate_twice_differs:
  "generate [JObj [(''name'', JStr ''woo/x''), (''title'', JStr ''X''),
             (''description'', JStr ''Save $& more'')]]
     (''# Blocks'' @ nl @ START_TOKEN @ nl @ END_TOKEN @ nl) =
     Inr (''# Blocks'' @ nl @ START_TOKEN @ nl @
          template ''X'' ''woo/x'' (''Save '' @ START_TOKEN @ nl @ END_TOKEN @ '' more'')
            [] [] [] [] [] @
          nl @ END_TOKEN @ nl) \<and>
   generate [JObj [(''name'', JStr ''woo/x''), (''title'', JStr ''X''),
             (''description'', JStr ''Save $& more'')]]
     (''# Blocks'' @ nl @ START_TOKEN @ nl @
          template ''X'' ''woo/x'' (''Save '' @ START_TOKEN @ nl @ END_TOKEN @ '' more'')
            [] [] [] [] [] @
          nl @ END_TOKEN @ nl) =
     Inr (''# Blocks'' @ nl @ START_TOKEN @ nl @
          template ''X'' ''woo/x''
            (''Save '' @ START_TOKEN @ nl @
               template ''X'' ''woo/x'' (''Save '' @ START_TOKEN @ nl @ END_TOKEN @ '' more'')
                 [] [] [] [] [] @
               nl @ END_TOKEN @ '' more'') [] [] [] [] [] @
          nl @ END_TOKEN @ nl) \<and>
   generate [JObj [(''name'', JStr ''woo/x''), (''title'', JStr ''X''),
             (''description'', JStr ''Save $& more'')]]
     (''# Blocks'' @ nl @ START_TOKEN @ nl @
          template ''X'' ''woo/x'' (''Save '' @ START_TOKEN @ nl @ END_TOKEN @ '' more'')
            [] [] [] [] [] @
          nl @ END_TOKEN @ nl) \<noteq>
     Inr (''# Blocks'' @ nl @ START_TOKEN @ nl @
          template ''X'' ''woo/x'' (''Save '' @ START_TOKEN @ nl @ END_TOKEN @ '' more'')
            [] [] [] [] [] @
          nl @ END_TOKEN @ nl)"
  by code_simp

section \<open>Properties of the rendering\<close>

subsection \<open>Rendering one descriptor\<close>

lemma or_sorted_eq: "or_sorted list = Inr (join '','' list)"
proof -
  have "collect (map (\<lambda>x. if x = JNull then Inr [] else to_string x) (map JStr list)) = Inr list"
    by (induction list) simp_all
  then show ?thesis by (simp add: or_sorted_def)
qed

lemma template_not_empty: "template t n d c a p s at \<noteq> []"
  by (simp add: template_def nl_def)

lemma render_not_empty: "render blockjson name sl at \<noteq> Inr []"
  by (auto simp: render_def template_not_empty split: sum.splits)

lemma readBlockJSON_named_not_empty:
  "get_prop blockjson ''name'' = Inr (Some name) \<Longrightarrow> readBlockJSON blockjson \<noteq> Inr []"
  by (auto simp: readBlockJSON_def render_not_empty split: sum.splits)

lemma readBlockJSON_unnamed: "get_prop blockjson ''name'' = Inr None \<Longrightarrow> readBlockJSON blockjson = Inr []"
  by (simp add: readBlockJSON_def)

lemma autogen_of_append:
  "autogen_of (xs @ ys) =
     (case autogen_of xs of
        Inl e \<Rightarrow> Inl e
      | Inr a \<Rightarrow> (case autogen_of ys of Inl e \<Rightarrow> Inl e | Inr b \<Rightarrow> Inr (a @ b)))"
  by (induction xs) (auto split: sum.splits)

text \<open>
  Claim C7. \<open>readBlockJSON\<close> returns the empty string exactly when reading \<open>name\<close> from the
  parsed content gives \<open>undefined\<close>; such a descriptor adds nothing to the text concatenated
  from all descriptors, wherever it stands among them.
\<close>

theorem readBlockJSON_skips_iff_no_name:
  "(readBlockJSON blockjson = Inr [] \<longleftrightarrow> get_prop blockjson ''name'' = Inr None) \<and>
   (get_prop blockjson ''name'' = Inr None \<longrightarrow>
      autogen_of (before @ blockjson # after) = autogen_of (before @ after))"
proof (intro conjI impI)
  show "readBlockJSON blockjson = Inr [] \<longleftrightarrow> get_prop blockjson ''name'' = Inr None"
  proof
    assume e: "readBlockJSON blockjson = Inr []"
    show "get_prop blockjson ''name'' = Inr None"
    proof (cases "get_prop blockjson ''name''")
      case (Inl err)
      then show ?thesis using e by (simp add: readBlockJSON_def)
    next
      case (Inr v)
      then show ?thesis using e readBlockJSON_named_not_empty by (cases v) auto
    qed
  qed (rule readBlockJSON_unnamed)
next
  assume "get_prop blockjson ''name'' = Inr None"
  then have "readBlockJSON blockjson = Inr []" by (rule readBlockJSON_unnamed)
  then have eq: "autogen_of (blockjson # after) = autogen_of after"
    by (simp split: sum.splits)
  show "autogen_of (before @ blockjson # after) = autogen_of (before @ after)"
    by (simp only: autogen_of_append eq)
qed

theorem readBlockJSON_skips_iff_no_name_witness:
  "get_prop (JObj [(''title'', JStr ''Cart'')]) ''name'' = Inr None \<and>
   readBlockJSON (JObj [(''title'', JStr ''Cart'')]) = Inr [] \<and>
   autogen_of ([JObj [(''name'', JStr ''woo/a'')]] @ JObj [(''title'', JStr ''Cart'')] # [JObj [(''name'', JStr ''woo/b'')]]) =
   autogen_of ([JObj [(''name'', JStr ''woo/a'')]] @ [JObj [(''name'', JStr ''woo/b'')]])"
proof -
  have h: "get_prop (JObj [(''title'', JStr ''Cart'')]) ''name'' = Inr None"
    by (simp add: get_prop_def)
  show ?thesis
    using h readBlockJSON_skips_iff_no_name[of "JObj [(''title'', JStr ''Cart'')]"
        "[JObj [(''name'', JStr ''woo/a'')]]" "[JObj [(''name'', JStr ''woo/b'')]]"]
    by blast
qed

text \<open>
  Claim C1, on the code. The descriptor
  \<open>{name: "woo/x", title: "X", supports: {b: true, a: true}}\<close> has the Supports list
  \<open>[b, a]\<close>; the bullet shows it as \<open>b,a\<close>, in the order of the keys and joined by a comma
  alone, where sorting and joining with \<open>", "\<close> would give \<open>a, b\<close>.
\<close>

theorem supports_bullet_unsorted:
  "supportsList_of (Some (JObj [(''b'', JBool True), (''a'', JBool True)])) = Inr [''b'', ''a''] \<and>
   readBlockJSON (JObj [(''name'', JStr ''woo/x''), (''title'', JStr ''X''),
      (''supports'', JObj [(''b'', JBool True), (''a'', JBool True)])]) =
     Inr (template ''X'' ''woo/x'' [] [] [] [] ''b,a'' []) \<and>
   join '', '' (sort [''b'', ''a'']) = ''a, b''"
  by code_simp

text \<open>
  Claim C4, on the code. The descriptor \<open>{name: "woo/x"}\<close> has no title, description, category,
  ancestor or parent. Its heading reads \<open>## undefined - woo/x\<close>: the title is shown as the text
  \<open>undefined\<close>, while the other four absent fields are shown as the empty string.
\<close>

theorem missing_title_renders_undefined:
  "readBlockJSON (JObj [(''name'', JStr ''woo/x'')]) =
     Inr (template ''undefined'' ''woo/x'' [] [] [] [] [] [])"
  by code_simp


subsection \<open>Truthy keys\<close>

lemma collect_Inr: "collect rs = Inr ys \<Longrightarrow> rs = map Inr ys"
proof (induction rs arbitrary: ys)
  case Nil
  then show ?case by simp
next
  case (Cons r rs)
  then show ?case by (cases r) (auto split: sum.splits)
qed

lemma collect_map_Inr:
  assumes "collect (map f xs) = Inr ys" and "y \<in> set ys"
  shows "\<exists>x\<in>set xs. f x = Inr y"
proof -
  have "map f xs = map Inr ys" using assms(1) by (rule collect_Inr)
  then have "Inr y \<in> set (map f xs)" using assms(2) by simp
  then show ?thesis by auto
qed


lemma map_of_distinct_pairs:
  assumes "distinct (map fst es)"
  shows "map (\<lambda>k. g k (map_of es k)) (filter P (map fst es)) =
         map (\<lambda>(k, v). g k (Some v)) (filter (\<lambda>(k, v). P k) es)"
proof -
  have "map (\<lambda>k. g k (map_of es k)) (filter P (map fst es)) =
        map (\<lambda>kv. g (fst kv) (map_of es (fst kv))) (filter (\<lambda>kv. P (fst kv)) es)"
    by (simp add: filter_map o_def)
  also have "\<dots> = map (\<lambda>kv. g (fst kv) (Some (snd kv))) (filter (\<lambda>kv. P (fst kv)) es)"
  proof (rule map_cong[OF refl])
    fix kv assume "kv \<in> set (filter (\<lambda>kv. P (fst kv)) es)"
    then have "(fst kv, snd kv) \<in> set es" by simp
    then have "map_of es (fst kv) = Some (snd kv)" using assms by (rule map_of_is_SomeI[rotated])
    then show "g (fst kv) (map_of es (fst kv)) = g (fst kv) (Some (snd kv))" by simp
  qed
  also have "\<dots> = map (\<lambda>(k, v). g k (Some v)) (filter (\<lambda>(k, v). P k) es)"
    by (simp only: case_prod_unfold)
  finally show ?thesis .
qed

lemma getTruthyKeys_pairs:
  assumes "own_entries obj = Inr es" and "distinct (map fst es)"
  shows "getTruthyKeys obj =
           Inr (map (\<lambda>(k, v). if truthy v then k else strike k)
                  (filter (\<lambda>(k, v). \<not> prefix ''__exp'' k) es))"
  using map_of_distinct_pairs[OF assms(2),
      of "\<lambda>k v. if truthy_opt v then k else strike k" "\<lambda>k. \<not> prefix ''__exp'' k"]
  by (simp add: getTruthyKeys_def assms(1))

lemma strike_not_exp: "\<not> prefix ''__exp'' (strike k)"
  by (simp add: strike_def)

lemma getTruthyKeys_no_exp:
  assumes "getTruthyKeys obj = Inr ks" and "e \<in> set ks"
  shows "\<not> prefix ''__exp'' e"
  using assms by (auto simp: getTruthyKeys_def strike_not_exp split: sum.splits if_splits)

lemma prefix_before_char:
  assumes "prefix p (k @ c # r)" and "c \<notin> set p"
  shows "prefix p k"
proof -
  from assms(1) consider "prefix p k" | us where "p = k @ us" "prefix us (c # r)"
    by (auto simp: prefix_append)
  then show ?thesis
  proof cases
    case 1
    then show ?thesis .
  next
    case 2
    then show ?thesis using assms(2) by (cases us) auto
  qed
qed

lemma inner_entry_no_exp:
  assumes "inner_entry es key = Inr e" and "\<not> prefix ''__exp'' key"
  shows "\<not> prefix ''__exp'' e"
proof -
  have "e = key \<or> (\<exists>r. e = key @ CHR '' '' # r)"
    using assms(1)
    by (auto simp: inner_entry_def split: option.splits json.splits sum.splits if_splits)
  then show ?thesis using assms(2) prefix_before_char[of "''__exp''" key "CHR '' ''"] by auto
qed

lemma processObjWithInnerKeys_no_exp:
  assumes "processObjWithInnerKeys obj = Inr sl" and "e \<in> set sl"
  shows "\<not> prefix ''__exp'' e"
proof -
  obtain kvs es where k: "getTruthyKeys obj = Inr kvs" and c: "collect (map (inner_entry es) kvs) = Inr sl"
    using assms(1) by (auto simp: processObjWithInnerKeys_def split: sum.splits)
  obtain key where "key \<in> set kvs" and i: "inner_entry es key = Inr e"
    using collect_map_Inr[OF c assms(2)] by blast
  then have "\<not> prefix ''__exp'' key" using getTruthyKeys_no_exp[OF k] by blast
  then show ?thesis using inner_entry_no_exp[OF i] by blast
qed

lemma supportsList_of_no_exp:
  assumes "supportsList_of supports = Inr sl" and "e \<in> set sl"
  shows "\<not> prefix ''__exp'' e"
  using assms processObjWithInnerKeys_no_exp
  by (auto simp: supportsList_of_def split: option.splits sum.splits if_splits)

lemma attributes_of_no_exp:
  assumes "attributes_of attrs = Inr ks" and "e \<in> set ks"
  shows "\<not> prefix ''__exp'' e"
  using assms getTruthyKeys_no_exp
  by (auto simp: attributes_of_def split: option.splits)

lemma collect_list_all2:
  "collect (map f xs) = Inr ys \<Longrightarrow> list_all2 (\<lambda>x y. f x = Inr y) xs ys"
proof (induction xs arbitrary: ys)
  case Nil
  then show ?case by simp
next
  case (Cons x xs)
  then show ?case by (cases "f x") (auto split: sum.splits)
qed

lemma inner_entry_shape:
  assumes "inner_entry es key = Inr e"
  shows "case map_of es key of
           Some (JArr xs) \<Rightarrow>
             (\<exists>ys j. array_sort xs = Inr ys \<and> array_join '', '' ys = Inr j \<and>
                e = key @ '' ('' @ j @ '')'')
         | Some (JObj inner) \<Rightarrow>
             e = key @ '' ('' @
               join '', ''
                 (sort (map (\<lambda>k. if truthy_opt (map_of inner k) then k else strike k)
                          (filter (\<lambda>k. \<not> prefix ''__exp'' k) (map fst inner)))) @
               '')''
         | Some JNull \<Rightarrow> False
         | _ \<Rightarrow> e = key"
  using assms
  by (auto simp: inner_entry_def getTruthyKeys_def split: option.splits json.splits sum.splits)

lemma processObjWithInnerKeys_entries:
  assumes "own_entries obj = Inr es" and "distinct (map fst es)"
    and "processObjWithInnerKeys obj = Inr sl"
  shows "list_all2
           (\<lambda>key e.
                 case map_of es key of
                   Some (JArr xs) \<Rightarrow>
                     (\<exists>ys j. array_sort xs = Inr ys \<and> array_join '', '' ys = Inr j \<and>
                        e = key @ '' ('' @ j @ '')'')
                 | Some (JObj inner) \<Rightarrow>
                     e = key @ '' ('' @
                       join '', ''
                         (sort (map (\<lambda>k. if truthy_opt (map_of inner k) then k else strike k)
                                  (filter (\<lambda>k. \<not> prefix ''__exp'' k) (map fst inner)))) @
                       '')''
                 | Some JNull \<Rightarrow> False
                 | _ \<Rightarrow> e = key)
           (map (\<lambda>(k, v). if truthy v then k else strike k)
              (filter (\<lambda>(k, v). \<not> prefix ''__exp'' k) es))
           sl"
proof -
  have "collect (map (inner_entry es)
          (map (\<lambda>(k, v). if truthy v then k else strike k)
             (filter (\<lambda>(k, v). \<not> prefix ''__exp'' k) es))) = Inr sl"
    using assms(3) by (simp add: processObjWithInnerKeys_def getTruthyKeys_pairs[OF assms(1,2)] assms(1))
  then have "list_all2 (\<lambda>key e. inner_entry es key = Inr e)
          (map (\<lambda>(k, v). if truthy v then k else strike k)
             (filter (\<lambda>(k, v). \<not> prefix ''__exp'' k) es)) sl"
    by (rule collect_list_all2)
  then show ?thesis
    by (rule list_all2_mono) (rule inner_entry_shape)
qed

lemma supportsList_of_process:
  assumes "augmentSupports s = Inr obj" and "own_entries obj = Inr es"
    and "supportsList_of (Some s) = Inr sl"
  shows "processObjWithInnerKeys obj = Inr sl"
proof (cases "truthy obj")
  case True
  then show ?thesis using assms by (simp add: supportsList_of_def)
next
  case False
  then have "es = []" using assms(2) by (cases obj) auto
  moreover have "sl = []" using False assms by (simp add: supportsList_of_def)
  ultimately show ?thesis using assms(2)
    by (simp add: processObjWithInnerKeys_def getTruthyKeys_def)
qed

text \<open>
  Claim C6. For an object with the own properties \<open>es\<close>, in the order \<open>Object.keys\<close> lists
  them, \<open>getTruthyKeys\<close> drops every property whose key starts with \<open>__exp\<close>, whatever its
  value, and turns each other property, in the same order, into its key when the value is
  truthy and into the key between \<open>~~\<close> and \<open>~~\<close> when it is falsy; the Attributes list of a
  descriptor whose attributes are this object is that list. Hence no key that starts with
  \<open>__exp\<close> appears in a Supports or Attributes list, neither as an entry nor inside one: the
  Supports list made from this object (by \<open>processObjWithInnerKeys\<close>, and so the Supports list
  of every descriptor whose augmented supports are this object) has one entry for each key of
  that list, in the same order, and the entry is the key followed, when \<open>obj[ key ]\<close> is an
  array, by its sorted elements, when it is an object, by its own truthy-key list, sorted, so
  without its properties whose key starts with \<open>__exp\<close>, and by nothing otherwise; and no entry
  of the Supports list or of the Attributes list of any descriptor starts with \<open>__exp\<close>.
\<close>

theorem getTruthyKeys_filters_and_strikes:
  assumes "own_entries obj = Inr es" and "distinct (map fst es)"
  shows "getTruthyKeys obj =
           Inr (map (\<lambda>(k, v). if truthy v then k else strike k)
                  (filter (\<lambda>(k, v). \<not> prefix ''__exp'' k) es)) \<and>
         attributes_of (Some obj) =
           Inr (map (\<lambda>(k, v). if truthy v then k else strike k)
                  (filter (\<lambda>(k, v). \<not> prefix ''__exp'' k) es)) \<and>
         (\<forall>sl. processObjWithInnerKeys obj = Inr sl \<or>
               (\<exists>s. augmentSupports s = Inr obj \<and> supportsList_of (Some s) = Inr sl) \<longrightarrow>
            list_all2
              (\<lambda>key e.
                 case map_of es key of
                   Some (JArr xs) \<Rightarrow>
                     (\<exists>ys j. array_sort xs = Inr ys \<and> array_join '', '' ys = Inr j \<and>
                        e = key @ '' ('' @ j @ '')'')
                 | Some (JObj inner) \<Rightarrow>
                     e = key @ '' ('' @
                       join '', ''
                         (sort (map (\<lambda>k. if truthy_opt (map_of inner k) then k else strike k)
                                  (filter (\<lambda>k. \<not> prefix ''__exp'' k) (map fst inner)))) @
                       '')''
                 | Some JNull \<Rightarrow> False
                 | _ \<Rightarrow> e = key)
              (map (\<lambda>(k, v). if truthy v then k else strike k)
                 (filter (\<lambda>(k, v). \<not> prefix ''__exp'' k) es))
              sl) \<and>
         (\<forall>supports sl. supportsList_of supports = Inr sl \<longrightarrow>
            (\<forall>e\<in>set sl. \<not> prefix ''__exp'' e)) \<and>
         (\<forall>attrs ks. attributes_of attrs = Inr ks \<longrightarrow> (\<forall>e\<in>set ks. \<not> prefix ''__exp'' e))"
proof (intro conjI allI impI)
  show g: "getTruthyKeys obj =
           Inr (map (\<lambda>(k, v). if truthy v then k else strike k)
                  (filter (\<lambda>(k, v). \<not> prefix ''__exp'' k) es))"
    by (rule getTruthyKeys_pairs[OF assms])
  then show "attributes_of (Some obj) =
           Inr (map (\<lambda>(k, v). if truthy v then k else strike k)
                  (filter (\<lambda>(k, v). \<not> prefix ''__exp'' k) es))"
    by (simp add: attributes_of_def)
next
  fix sl
  assume "processObjWithInnerKeys obj = Inr sl \<or>
          (\<exists>s. augmentSupports s = Inr obj \<and> supportsList_of (Some s) = Inr sl)"
  then have "processObjWithInnerKeys obj = Inr sl"
    using supportsList_of_process[OF _ assms(1)] by blast
  then show "list_all2
              (\<lambda>key e.
                 case map_of es key of
                   Some (JArr xs) \<Rightarrow>
                     (\<exists>ys j. array_sort xs = Inr ys \<and> array_join '', '' ys = Inr j \<and>
                        e = key @ '' ('' @ j @ '')'')
                 | Some (JObj inner) \<Rightarrow>
                     e = key @ '' ('' @
                       join '', ''
                         (sort (map (\<lambda>k. if truthy_opt (map_of inner k) then k else strike k)
                                  (filter (\<lambda>k. \<not> prefix ''__exp'' k) (map fst inner)))) @
                       '')''
                 | Some JNull \<Rightarrow> False
                 | _ \<Rightarrow> e = key)
              (map (\<lambda>(k, v). if truthy v then k else strike k)
                 (filter (\<lambda>(k, v). \<not> prefix ''__exp'' k) es))
              sl"
    by (rule processObjWithInnerKeys_entries[OF assms])
next
  fix supports sl assume "supportsList_of supports = Inr sl"
  then show "\<forall>e\<in>set sl. \<not> prefix ''__exp'' e" using supportsList_of_no_exp by blast
next
  fix attrs ks assume "attributes_of attrs = Inr ks"
  then show "\<forall>e\<in>set ks. \<not> prefix ''__exp'' e" using attributes_of_no_exp by blast
qed

theorem getTruthyKeys_filters_and_strikes_witness:
  "own_entries (JObj [(''spacing'', JObj [(''__experimentalSkip'', JBool True), (''padding'', JBool True),
         (''margin'', JBool False)]),
      (''__experimentalBorder'', JObj [(''radius'', JBool True)]),
      (''align'', JArr [JStr ''wide'', JStr ''full'']),
      (''html'', JBool False),
      (''color'', JObj [(''link'', JBool True), (''__experimentalDuotone'', JBool True),
         (''background'', JBool True), (''text'', JBool True)])]) =
     Inr [(''spacing'', JObj [(''__experimentalSkip'', JBool True), (''padding'', JBool True),
         (''margin'', JBool False)]),
      (''__experimentalBorder'', JObj [(''radius'', JBool True)]),
      (''align'', JArr [JStr ''wide'', JStr ''full'']),
      (''html'', JBool False),
      (''color'', JObj [(''link'', JBool True), (''__experimentalDuotone'', JBool True),
         (''background'', JBool True), (''text'', JBool True)])] \<and>
   distinct (map fst [(''spacing'', JObj [(''__experimentalSkip'', JBool True), (''padding'', JBool True),
         (''margin'', JBool False)]),
      (''__experimentalBorder'', JObj [(''radius'', JBool True)]),
      (''align'', JArr [JStr ''wide'', JStr ''full'']),
      (''html'', JBool False),
      (''color'', JObj [(''link'', JBool True), (''__experimentalDuotone'', JBool True),
         (''background'', JBool True), (''text'', JBool True)])]) \<and>
   augmentSupports (JObj [(''spacing'', JObj [(''__experimentalSkip'', JBool True), (''padding'', JBool True),
         (''margin'', JBool False)]),
      (''__experimentalBorder'', JObj [(''radius'', JBool True)]),
      (''align'', JArr [JStr ''wide'', JStr ''full'']),
      (''html'', JBool False),
      (''color'', JObj [(''link'', JBool True), (''__experimentalDuotone'', JBool True)])]) =
     Inr (JObj [(''spacing'', JObj [(''__experimentalSkip'', JBool True), (''padding'', JBool True),
         (''margin'', JBool False)]),
      (''__experimentalBorder'', JObj [(''radius'', JBool True)]),
      (''align'', JArr [JStr ''wide'', JStr ''full'']),
      (''html'', JBool False),
      (''color'', JObj [(''link'', JBool True), (''__experimentalDuotone'', JBool True),
         (''background'', JBool True), (''text'', JBool True)])]) \<and>
   supportsList_of (Some (JObj [(''spacing'', JObj [(''__experimentalSkip'', JBool True), (''padding'', JBool True),
         (''margin'', JBool False)]),
      (''__experimentalBorder'', JObj [(''radius'', JBool True)]),
      (''align'', JArr [JStr ''wide'', JStr ''full'']),
      (''html'', JBool False),
      (''color'', JObj [(''link'', JBool True), (''__experimentalDuotone'', JBool True)])])) =
     Inr [''spacing (padding, ~~margin~~)'', ''align (full, wide)'', ''~~html~~'',
        ''color (background, link, text)''] \<and>
   getTruthyKeys (JObj [(''spacing'', JObj [(''__experimentalSkip'', JBool True), (''padding'', JBool True),
         (''margin'', JBool False)]),
      (''__experimentalBorder'', JObj [(''radius'', JBool True)]),
      (''align'', JArr [JStr ''wide'', JStr ''full'']),
      (''html'', JBool False),
      (''color'', JObj [(''link'', JBool True), (''__experimentalDuotone'', JBool True),
         (''background'', JBool True), (''text'', JBool True)])]) =
     Inr [''spacing'', ''align'', ''~~html~~'', ''color''] \<and>
   attributes_of (Some (JObj [(''spacing'', JObj [(''__experimentalSkip'', JBool True), (''padding'', JBool True),
         (''margin'', JBool False)]),
      (''__experimentalBorder'', JObj [(''radius'', JBool True)]),
      (''align'', JArr [JStr ''wide'', JStr ''full'']),
      (''html'', JBool False),
      (''color'', JObj [(''link'', JBool True), (''__experimentalDuotone'', JBool True),
         (''background'', JBool True), (''text'', JBool True)])])) =
     Inr [''spacing'', ''align'', ''~~html~~'', ''color''] \<and>
   list_all2 (\<lambda>key e.
                 case map_of 
                   [(''spacing'', JObj [(''__experimentalSkip'', JBool True), (''padding'', JBool True),
                      (''margin'', JBool False)]),
                   (''__experimentalBorder'', JObj [(''radius'', JBool True)]),
                   (''align'', JArr [JStr ''wide'', JStr ''full'']),
                   (''html'', JBool False),
                   (''color'', JObj [(''link'', JBool True), (''__experimentalDuotone'', JBool True),
                      (''background'', JBool True), (''text'', JBool True)])] key of
                   Some (JArr xs) \<Rightarrow>
                     (\<exists>ys j. array_sort xs = Inr ys \<and> array_join '', '' ys = Inr j \<and>
                        e = key @ '' ('' @ j @ '')'')
                 | Some (JObj inner) \<Rightarrow>
                     e = key @ '' ('' @
                       join '', ''
                         (sort (map (\<lambda>k. if truthy_opt (map_of inner k) then k else strike k)
                                  (filter (\<lambda>k. \<not> prefix ''__exp'' k) (map fst inner)))) @
                       '')''
                 | Some JNull \<Rightarrow> False
                 | _ \<Rightarrow> e = key)
     [''spacing'', ''align'', ''~~html~~'', ''color'']
     [''spacing (padding, ~~margin~~)'', ''align (full, wide)'', ''~~html~~'',
        ''color (background, link, text)'']"
proof -
  let ?es = "[(''spacing'', JObj [(''__experimentalSkip'', JBool True), (''padding'', JBool True),
         (''margin'', JBool False)]),
      (''__experimentalBorder'', JObj [(''radius'', JBool True)]),
      (''align'', JArr [JStr ''wide'', JStr ''full'']),
      (''html'', JBool False),
      (''color'', JObj [(''link'', JBool True), (''__experimentalDuotone'', JBool True),
         (''background'', JBool True), (''text'', JBool True)])]"
  let ?s = "(JObj [(''spacing'', JObj [(''__experimentalSkip'', JBool True), (''padding'', JBool True),
         (''margin'', JBool False)]),
      (''__experimentalBorder'', JObj [(''radius'', JBool True)]),
      (''align'', JArr [JStr ''wide'', JStr ''full'']),
      (''html'', JBool False),
      (''color'', JObj [(''link'', JBool True), (''__experimentalDuotone'', JBool True)])])"
  let ?sl = "[''spacing (padding, ~~margin~~)'', ''align (full, wide)'', ''~~html~~'',
        ''color (background, link, text)'']"
  have o: "own_entries (JObj ?es) = Inr ?es" by simp
  have d: "distinct (map fst ?es)" by simp
  have a: "augmentSupports ?s = Inr (JObj ?es)" by code_simp
  have sl: "supportsList_of (Some ?s) = Inr ?sl" by code_simp
  have k: "map (\<lambda>(k, v). if truthy v then k else strike k)
             (filter (\<lambda>(k, v). \<not> prefix ''__exp'' k) ?es) = [''spacing'', ''align'', ''~~html~~'', ''color'']"
    by (simp add: strike_def)
  note T = getTruthyKeys_filters_and_strikes[OF o d, unfolded k]
  have g: "getTruthyKeys (JObj ?es) = Inr [''spacing'', ''align'', ''~~html~~'', ''color'']"
    using T by (rule conjunct1)
  have at: "attributes_of (Some (JObj ?es)) = Inr [''spacing'', ''align'', ''~~html~~'', ''color'']"
    using T by (rule conjunct1[OF conjunct2])
  have "\<forall>sl. processObjWithInnerKeys (JObj ?es) = Inr sl \<or>
               (\<exists>s. augmentSupports s = Inr (JObj ?es) \<and> supportsList_of (Some s) = Inr sl) \<longrightarrow>
            list_all2 (\<lambda>key e.
                 case map_of ?es key of
                   Some (JArr xs) \<Rightarrow>
                     (\<exists>ys j. array_sort xs = Inr ys \<and> array_join '', '' ys = Inr j \<and>
                        e = key @ '' ('' @ j @ '')'')
                 | Some (JObj inner) \<Rightarrow>
                     e = key @ '' ('' @
                       join '', ''
                         (sort (map (\<lambda>k. if truthy_opt (map_of inner k) then k else strike k)
                                  (filter (\<lambda>k. \<not> prefix ''__exp'' k) (map fst inner)))) @
                       '')''
                 | Some JNull \<Rightarrow> False
                 | _ \<Rightarrow> e = key)
              [''spacing'', ''align'', ''~~html~~'', ''color''] sl"
    using T by (rule conjunct1[OF conjunct2[OF conjunct2]])
  then have l: "list_all2 (\<lambda>key e.
                 case map_of ?es key of
                   Some (JArr xs) \<Rightarrow>
                     (\<exists>ys j. array_sort xs = Inr ys \<and> array_join '', '' ys = Inr j \<and>
                        e = key @ '' ('' @ j @ '')'')
                 | Some (JObj inner) \<Rightarrow>
                     e = key @ '' ('' @
                       join '', ''
                         (sort (map (\<lambda>k. if truthy_opt (map_of inner k) then k else strike k)
                                  (filter (\<lambda>k. \<not> prefix ''__exp'' k) (map fst inner)))) @
                       '')''
                 | Some JNull \<Rightarrow> False
                 | _ \<Rightarrow> e = key)
     [''spacing'', ''align'', ''~~html~~'', ''color'']
     ?sl"
    using a sl by blast
  show ?thesis using o d a sl g at l by (intro conjI)
qed


subsection \<open>Augmented supports\<close>











section \<open>Properties of the workflow\<close>

subsection \<open>The matcher finds a match exactly when the pattern has one\<close>

lemma accepts_Nil [simp]: "accepts [] segs \<longleftrightarrow> segs = []"
  by (simp add: accepts_def)

lemma accepts_Cons:
  "accepts (x # r) segs \<longleftrightarrow> (\<exists>w ws. segs = w # ws \<and> item_ok x w \<and> accepts r ws)"
  by (simp add: accepts_def list_all2_Cons1)

lemma bt_sound: "bt re s = Some segs \<Longrightarrow> accepts re segs \<and> prefix (concat segs) s"
proof (induction re s arbitrary: segs rule: bt.induct)
  case (1 s)
  then show ?case by simp
next
  case (2 l r s)
  then obtain ws where p: "prefix l s" and b: "bt r (drop (length l) s) = Some ws"
    and segs: "segs = l # ws"
    by (auto split: if_splits)
  have "accepts r ws \<and> prefix (concat ws) (drop (length l) s)" using "2.IH"[OF p b] .
  moreover have "s = l @ drop (length l) s" using p by (metis append_eq_conv_conj prefixE)
  ultimately show ?case unfolding segs accepts_Cons
    by (metis append_assoc concat.simps(2) item_ok.simps(1) prefix_def)
next
  case (3 P r)
  then show ?case by (auto simp: accepts_Cons)
next
  case (4 P r c cs)
  show ?case
  proof (cases "P c \<and> bt (RStar P # r) cs \<noteq> None")
    case True
    then obtain segs' where i: "bt (RStar P # r) cs = Some segs'" by auto
    then have segs: "segs = push c segs'" using "4.prems" True by simp
    have "accepts (RStar P # r) segs' \<and> prefix (concat segs') cs"
      using "4.IH"(1)[OF _ i] True by simp
    then show ?thesis using True by (auto simp: segs accepts_Cons push_def)
  next
    case False
    then obtain ws where b: "bt r (c # cs) = Some ws" and segs: "segs = [] # ws"
      using "4.prems" by (auto split: if_splits option.splits)
    have "accepts r ws \<and> prefix (concat ws) (c # cs)"
    proof (cases "P c")
      case True
      then have "bt (RStar P # r) cs = None" using False by simp
      then show ?thesis using "4.IH"(2)[OF True _ b] by simp
    next
      case False
      then show ?thesis using "4.IH"(3)[OF False b] by simp
    qed
    then show ?thesis by (simp add: segs accepts_Cons)
  qed
next
  case (5 P r)
  then show ?case by (auto simp: accepts_Cons)
next
  case (6 P r c cs)
  show ?case
  proof (cases "bt r (c # cs)")
    case (Some ws)
    then have segs: "segs = [] # ws" using "6.prems" by simp
    have "accepts r ws \<and> prefix (concat ws) (c # cs)" using "6.IH"(1)[OF Some] .
    then show ?thesis by (simp add: segs accepts_Cons)
  next
    case None
    then obtain segs' where pc: "P c" and i: "bt (RLazy P # r) cs = Some segs'"
      and segs: "segs = push c segs'"
      using "6.prems" by (auto split: if_splits)
    have "accepts (RLazy P # r) segs' \<and> prefix (concat segs') cs"
      using "6.IH"(2)[OF None pc i] .
    then show ?thesis using pc by (auto simp: segs accepts_Cons push_def)
  qed
next
  case (7 P r)
  then show ?case by simp
next
  case (8 P r c cs)
  then obtain segs' where pc: "P c" and i: "bt (RStar P # r) cs = Some segs'"
    and segs: "segs = push c segs'"
    by (auto split: if_splits)
  have "accepts (RStar P # r) segs' \<and> prefix (concat segs') cs" using "8.IH"[OF pc i] .
  then show ?case using pc by (auto simp: segs accepts_Cons push_def)
qed

lemma bt_complete: "accepts re segs \<Longrightarrow> prefix (concat segs) s \<Longrightarrow> bt re s \<noteq> None"
proof (induction re s arbitrary: segs rule: bt.induct)
  case (1 s)
  then show ?case by simp
next
  case (2 l r s)
  then obtain ws where segs: "segs = l # ws" and a: "accepts r ws"
    by (auto simp: accepts_Cons)
  have p: "prefix l s" using "2.prems"(2) by (simp add: segs append_prefixD)
  then have "s = l @ drop (length l) s" by (metis append_eq_conv_conj prefixE)
  then have "prefix (concat ws) (drop (length l) s)"
    using "2.prems"(2) by (metis segs concat.simps(2) same_prefix_prefix)
  then have "bt r (drop (length l) s) \<noteq> None" using "2.IH"[OF p a] by simp
  then show ?case using p by auto
next
  case (3 P r)
  then show ?case by (auto simp: accepts_Cons)
next
  case (4 P r c cs)
  then obtain w ws where segs: "segs = w # ws" and w: "list_all P w" and a: "accepts r ws"
    by (auto simp: accepts_Cons)
  show ?case
  proof (cases "P c \<and> bt (RStar P # r) cs \<noteq> None")
    case True
    then show ?thesis by auto
  next
    case False
    have "w = []"
    proof (rule ccontr)
      assume "w \<noteq> []"
      then obtain w' where w': "w = c # w'" using "4.prems"(2) by (cases w) (auto simp: segs)
      then have pc: "P c" using w by simp
      have "accepts (RStar P # r) (w' # ws)" using w a w' by (simp add: accepts_Cons)
      moreover have "prefix (concat (w' # ws)) cs" using "4.prems"(2) by (simp add: segs w')
      ultimately have "bt (RStar P # r) cs \<noteq> None" using "4.IH"(1)[OF pc] by blast
      then show False using False pc by simp
    qed
    then have p: "prefix (concat ws) (c # cs)" using "4.prems"(2) by (simp add: segs)
    show ?thesis
    proof (cases "P c")
      case True
      then have n: "bt (RStar P # r) cs = None" using False by simp
      then have "bt r (c # cs) \<noteq> None" using "4.IH"(2)[OF True n a p] by simp
      then show ?thesis using True n by auto
    next
      case False
      then have "bt r (c # cs) \<noteq> None" using "4.IH"(3)[OF False a p] by simp
      then show ?thesis using False by auto
    qed
  qed
next
  case (5 P r)
  then show ?case by (auto simp: accepts_Cons)
next
  case (6 P r c cs)
  then obtain w ws where segs: "segs = w # ws" and w: "list_all P w" and a: "accepts r ws"
    by (auto simp: accepts_Cons)
  show ?case
  proof (cases "bt r (c # cs)")
    case (Some x)
    then show ?thesis by simp
  next
    case None
    have "w \<noteq> []"
    proof
      assume "w = []"
      then have "prefix (concat ws) (c # cs)" using "6.prems"(2) by (simp add: segs)
      then show False using "6.IH"(1)[OF a] None by simp
    qed
    then obtain w' where w': "w = c # w'" using "6.prems"(2) by (cases w) (auto simp: segs)
    then have pc: "P c" using w by simp
    have "accepts (RLazy P # r) (w' # ws)" using w a w' by (simp add: accepts_Cons)
    moreover have "prefix (concat (w' # ws)) cs" using "6.prems"(2) by (simp add: segs w')
    ultimately have "bt (RLazy P # r) cs \<noteq> None" using "6.IH"(2)[OF None pc] by blast
    then show ?thesis using None pc by auto
  qed
next
  case (7 P r)
  then show ?case by (auto simp: accepts_Cons)
next
  case (8 P r c cs)
  then obtain w ws where segs: "segs = w # ws" and ne: "w \<noteq> []" and w: "list_all P w"
    and a: "accepts r ws"
    by (auto simp: accepts_Cons)
  obtain w' where w': "w = c # w'" using "8.prems"(2) ne by (cases w) (auto simp: segs)
  then have pc: "P c" using w by simp
  have "accepts (RStar P # r) (w' # ws)" using w a w' by (simp add: accepts_Cons)
  moreover have "prefix (concat (w' # ws)) cs" using "8.prems"(2) by (simp add: segs w')
  ultimately have "bt (RStar P # r) cs \<noteq> None" using "8.IH"[OF pc] by blast
  then show ?case using pc by auto
qed

lemma search_sound:
  "search re s = Some (k, segs) \<Longrightarrow> k \<le> length s \<and> bt re (drop k s) = Some segs"
proof (induction s arbitrary: k)
  case Nil
  then show ?case by auto
next
  case (Cons c cs)
  show ?case
  proof (cases "bt re (c # cs)")
    case (Some x)
    then show ?thesis using Cons.prems by simp
  next
    case None
    then obtain m where "search re cs = Some (m, segs)" and k: "k = Suc m"
      using Cons.prems by auto
    then have "m \<le> length cs \<and> bt re (drop m cs) = Some segs" using Cons.IH by blast
    then show ?thesis by (simp add: k)
  qed
qed

lemma search_None_D: "search re s = None \<Longrightarrow> k \<le> length s \<Longrightarrow> bt re (drop k s) = None"
proof (induction s arbitrary: k)
  case Nil
  then show ?case by simp
next
  case (Cons c cs)
  have 0: "bt re (c # cs) = None" and 1: "search re cs = None"
    using Cons.prems(1) by (auto split: option.splits)
  show ?case
  proof (cases k)
    case 0
    then show ?thesis using \<open>bt re (c # cs) = None\<close> by simp
  next
    case (Suc m)
    then show ?thesis using Cons.IH[OF 1, of m] Cons.prems(2) by simp
  qed
qed

lemma js_match_sound:
  assumes "js_match re s = Some segs"
  shows "accepts re segs \<and> (\<exists>before rest. s = before @ concat segs @ rest)"
proof -
  obtain k where "search re s = Some (k, segs)" using assms by (auto simp: js_match_def)
  then have "bt re (drop k s) = Some segs" using search_sound by blast
  then have a: "accepts re segs" and "prefix (concat segs) (drop k s)" using bt_sound by blast+
  then obtain rest where "drop k s = concat segs @ rest" by (auto elim: prefixE)
  then have "s = take k s @ concat segs @ rest" by (metis append_take_drop_id)
  then show ?thesis using a by blast
qed

lemma js_match_complete:
  assumes "accepts re segs" and "s = before @ concat segs @ rest"
  shows "js_match re s \<noteq> None"
proof
  assume "js_match re s = None"
  then have "search re s = None" by (simp add: js_match_def)
  then have "bt re (drop (length before) s) = None"
    by (rule search_None_D) (simp add: assms(2))
  moreover have "prefix (concat segs) (drop (length before) s)" by (simp add: assms(2))
  ultimately show False using bt_complete[OF assms(1)] by blast
qed


subsection \<open>Release number and pull request\<close>

lemma list_all_any_char: "list_all any_char w"
  by (induction w) (simp_all add: any_char_def)

lemma accepts_releaseRegex:
  "accepts releaseRegex segs \<longleftrightarrow>
     (\<exists>between major minor.
        segs = [release_question, between, nl, major, ''.'', minor] \<and>
        major \<noteq> [] \<and> list_all is_digit major \<and> minor \<noteq> [] \<and> list_all is_digit minor)"
  by (auto simp: releaseRegex_def accepts_Cons list_all_any_char)

lemma accepts_prRegex:
  "accepts prRegex segs \<longleftrightarrow>
     (\<exists>between owner repo number.
        segs = [pr_question, between, nl, ''https://github.com/'', owner, ''/'', repo,
                ''/pull/'', number] \<and>
        owner \<noteq> [] \<and> list_all is_repo_char owner \<and> repo \<noteq> [] \<and> list_all is_repo_char repo \<and>
        number \<noteq> [] \<and> list_all is_digit number)"
  by (auto simp: prRegex_def accepts_Cons list_all_any_char)

lemma extract_release_Inr:
  assumes "extract_release b = Inr n"
  shows "\<exists>before between major minor rest.
           n = major @ ''.'' @ minor \<and>
           b = before @ release_question @ between @ nl @ major @ ''.'' @ minor @ rest \<and>
           major \<noteq> [] \<and> list_all is_digit major \<and> minor \<noteq> [] \<and> list_all is_digit minor"
proof -
  obtain segs where m: "js_match releaseRegex b = Some segs"
    and n: "n = concat (take 3 (drop 3 segs))"
    using assms by (auto simp: extract_release_def Let_def split: option.splits if_splits)
  obtain before rest where a: "accepts releaseRegex segs" and b: "b = before @ concat segs @ rest"
    using js_match_sound[OF m] by blast
  obtain between major minor where
    segs: "segs = [release_question, between, nl, major, ''.'', minor]"
    and d: "major \<noteq> []" "list_all is_digit major" "minor \<noteq> []" "list_all is_digit minor"
    using a unfolding accepts_releaseRegex by blast
  have "n = major @ ''.'' @ minor" by (simp add: n segs)
  moreover have "b = before @ release_question @ between @ nl @ major @ ''.'' @ minor @ rest"
    by (simp add: b segs)
  ultimately show ?thesis using d by blast
qed

lemma extract_release_pattern:
  assumes "release_pattern b"
  shows "\<exists>n. extract_release b = Inr n"
proof -
  obtain before between major minor rest where
    b: "b = before @ release_question @ between @ nl @ major @ ''.'' @ minor @ rest"
    and d: "major \<noteq> []" "list_all is_digit major" "minor \<noteq> []" "list_all is_digit minor"
    using assms unfolding release_pattern_def by blast
  let ?segs = "[release_question, between, nl, major, ''.'', minor]"
  have "accepts releaseRegex ?segs" unfolding accepts_releaseRegex using d by blast
  moreover have "b = before @ concat ?segs @ rest" by (simp add: b)
  ultimately have "js_match releaseRegex b \<noteq> None" by (rule js_match_complete)
  then obtain segs where m: "js_match releaseRegex b = Some segs" by auto
  then have "accepts releaseRegex segs" using js_match_sound by blast
  then have "concat (take 3 (drop 3 segs)) \<noteq> []" unfolding accepts_releaseRegex by auto
  then show ?thesis by (simp add: extract_release_def m Let_def)
qed

lemma extract_release_failure: "extract_release b = Inl e \<Longrightarrow> e = release_failure"
  by (auto simp: extract_release_def Let_def split: option.splits if_splits)

lemma extract_pr_Inr:
  assumes "extract_pr b = Inr p"
  shows "\<exists>before between owner repo rest.
           b = before @ pr_question @ between @ nl @
               ''https://github.com/'' @ owner @ ''/'' @ repo @ ''/pull/'' @ p @ rest \<and>
           owner \<noteq> [] \<and> list_all is_repo_char owner \<and> repo \<noteq> [] \<and> list_all is_repo_char repo \<and>
           p \<noteq> [] \<and> list_all is_digit p"
proof -
  obtain segs where m: "js_match prRegex b = Some segs" and p: "p = concat (drop 8 segs)"
    using assms by (auto simp: extract_pr_def Let_def split: option.splits if_splits)
  obtain before rest where a: "accepts prRegex segs" and b: "b = before @ concat segs @ rest"
    using js_match_sound[OF m] by blast
  obtain between owner repo number where
    segs: "segs = [pr_question, between, nl, ''https://github.com/'', owner, ''/'', repo,
                   ''/pull/'', number]"
    and d: "owner \<noteq> []" "list_all is_repo_char owner" "repo \<noteq> []" "list_all is_repo_char repo"
      "number \<noteq> []" "list_all is_digit number"
    using a unfolding accepts_prRegex by blast
  have pn: "p = number" by (simp add: p segs)
  have "b = before @ pr_question @ between @ nl @
      ''https://github.com/'' @ owner @ ''/'' @ repo @ ''/pull/'' @ p @ rest"
    by (simp add: b segs pn)
  then show ?thesis using d pn by blast
qed

lemma extract_pr_pattern:
  assumes "pr_pattern b"
  shows "\<exists>p. extract_pr b = Inr p"
proof -
  obtain before between owner repo number rest where
    b: "b = before @ pr_question @ between @ nl @
            ''https://github.com/'' @ owner @ ''/'' @ repo @ ''/pull/'' @ number @ rest"
    and d: "owner \<noteq> []" "list_all is_repo_char owner" "repo \<noteq> []" "list_all is_repo_char repo"
      "number \<noteq> []" "list_all is_digit number"
    using assms unfolding pr_pattern_def by blast
  let ?segs = "[pr_question, between, nl, ''https://github.com/'', owner, ''/'', repo,
                ''/pull/'', number]"
  have "accepts prRegex ?segs" unfolding accepts_prRegex using d by blast
  moreover have "b = before @ concat ?segs @ rest" by (simp add: b)
  ultimately have "js_match prRegex b \<noteq> None" by (rule js_match_complete)
  then obtain segs where m: "js_match prRegex b = Some segs" by auto
  then have "accepts prRegex segs" using js_match_sound by blast
  then have "concat (drop 8 segs) \<noteq> []" unfolding accepts_prRegex by auto
  then show ?thesis by (simp add: extract_pr_def m Let_def)
qed

lemma extract_pr_failure: "extract_pr b = Inl e \<Longrightarrow> e = pr_failure"
  by (auto simp: extract_pr_def Let_def split: option.splits if_splits)

lemma extract_release_iff: "(\<exists>n. extract_release b = Inr n) \<longleftrightarrow> release_pattern b"
proof
  assume "\<exists>n. extract_release b = Inr n"
  then obtain n where "extract_release b = Inr n" by blast
  then show "release_pattern b" unfolding release_pattern_def using extract_release_Inr by blast
qed (rule extract_release_pattern)

lemma extract_pr_iff: "(\<exists>p. extract_pr b = Inr p) \<longleftrightarrow> pr_pattern b"
proof
  assume "\<exists>p. extract_pr b = Inr p"
  then obtain p where "extract_pr b = Inr p" by blast
  then show "pr_pattern b" unfolding pr_pattern_def using extract_pr_Inr[of b p] by blast
qed (rule extract_pr_pattern)

subsection \<open>Which match the search finds\<close>

lemma bt_lazy_any_Cons:
  "bt (RLazy any_char # r) (c # cs) =
     (case bt r (c # cs) of
        Some segs \<Rightarrow> Some ([] # segs)
      | None \<Rightarrow> map_option (push c) (bt (RLazy any_char # r) cs))"
proof -
  have "any_char c" by (simp add: any_char_def)
  then show ?thesis by (simp only: bt.simps if_True)
qed

lemma bt_lazy_any:
  "bt (RLazy any_char # r) s = Some segs \<Longrightarrow>
   \<exists>k ws. k \<le> length s \<and> segs = take k s # ws \<and> bt r (drop k s) = Some ws \<and>
     (\<forall>j<k. bt r (drop j s) = None)"
proof (induction s arbitrary: segs)
  case Nil
  then show ?case by auto
next
  case (Cons c cs)
  show ?case
  proof (cases "bt r (c # cs)")
    case (Some ws)
    then have "segs = [] # ws" using Cons.prems by (simp add: bt_lazy_any_Cons del: bt.simps(6))
    then show ?thesis using Some by (intro exI[of _ 0] exI[of _ ws]) simp
  next
    case None
    then obtain segs' where i: "bt (RLazy any_char # r) cs = Some segs'"
      and segs: "segs = push c segs'"
      using Cons.prems by (auto simp: bt_lazy_any_Cons simp del: bt.simps(6))
    obtain k ws where k: "k \<le> length cs" "segs' = take k cs # ws" "bt r (drop k cs) = Some ws"
      "\<forall>j<k. bt r (drop j cs) = None"
      using Cons.IH[OF i] by blast
    have "\<forall>j<Suc k. bt r (drop j (c # cs)) = None"
    proof (intro allI impI)
      fix j assume "j < Suc k"
      then show "bt r (drop j (c # cs)) = None" using None k(4) by (cases j) auto
    qed
    then show ?thesis using k
      by (intro exI[of _ "Suc k"] exI[of _ ws]) (simp add: segs push_def)
  qed
qed

lemma bt_star_decomp:
  "bt (RStar P # r) s = Some segs \<Longrightarrow>
   \<exists>w ws. segs = w # ws \<and> list_all P w \<and> prefix w s \<and> bt r (drop (length w) s) = Some ws"
proof (induction s arbitrary: segs)
  case Nil
  then show ?case by auto
next
  case (Cons c cs)
  show ?case
  proof (cases "P c \<and> bt (RStar P # r) cs \<noteq> None")
    case True
    then obtain segs' where i: "bt (RStar P # r) cs = Some segs'" by auto
    then have segs: "segs = push c segs'" using Cons.prems True by simp
    obtain w ws where "segs' = w # ws" "list_all P w" "prefix w cs"
      "bt r (drop (length w) cs) = Some ws"
      using Cons.IH[OF i] by blast
    then show ?thesis using True
      by (intro exI[of _ "c # w"] exI[of _ ws]) (simp add: segs push_def)
  next
    case False
    then obtain ws where "bt r (c # cs) = Some ws" "segs = [] # ws"
      using Cons.prems by (auto split: if_splits option.splits)
    then show ?thesis by (intro exI[of _ "[]"] exI[of _ ws]) simp
  qed
qed

lemma bt_plus_decomp:
  assumes "bt (RPlus P # r) s = Some segs"
  shows "\<exists>w ws. segs = w # ws \<and> w \<noteq> [] \<and> list_all P w \<and> prefix w s \<and>
           bt r (drop (length w) s) = Some ws"
proof (cases s)
  case Nil
  then show ?thesis using assms by simp
next
  case (Cons c cs)
  then obtain segs' where pc: "P c" and i: "bt (RStar P # r) cs = Some segs'"
    and segs: "segs = push c segs'"
    using assms by (auto split: if_splits)
  obtain w ws where "segs' = w # ws" "list_all P w" "prefix w cs"
    "bt r (drop (length w) cs) = Some ws"
    using bt_star_decomp[OF i] by blast
  then show ?thesis using pc Cons
    by (intro exI[of _ "c # w"] exI[of _ ws]) (simp add: segs push_def)
qed

lemma bt_star_last: "bt [RStar P] s = Some [takeWhile P s]"
  by (induction s) (simp_all add: push_def)

lemma bt_plus_last:
  assumes "bt [RPlus P] s = Some segs"
  shows "segs = [takeWhile P s] \<and> takeWhile P s \<noteq> []"
proof (cases s)
  case Nil
  then show ?thesis using assms by simp
next
  case (Cons c cs)
  then show ?thesis using assms by (auto simp: bt_star_last push_def split: if_splits)
qed

lemma search_first:
  "search re s = Some (k, segs) \<Longrightarrow> j < k \<Longrightarrow> bt re (drop j s) = None"
proof (induction s arbitrary: k j)
  case Nil
  then show ?case by auto
next
  case (Cons c cs)
  show ?case
  proof (cases "bt re (c # cs)")
    case (Some x)
    then show ?thesis using Cons.prems by simp
  next
    case None
    then obtain m where m: "search re cs = Some (m, segs)" and k: "k = Suc m"
      using Cons.prems by auto
    show ?thesis
    proof (cases j)
      case 0
      then show ?thesis using None by simp
    next
      case (Suc i)
      then have "i < m" using Cons.prems(2) k by simp
      then show ?thesis using Cons.IH[OF m] Suc by simp
    qed
  qed
qed


lemma bt_lazy_any_later:
  "d \<le> length s \<Longrightarrow> bt r (drop d s) \<noteq> None \<Longrightarrow> bt (RLazy any_char # r) s \<noteq> None"
proof (induction s arbitrary: d)
  case Nil
  then show ?case by auto
next
  case (Cons c cs)
  show ?case
  proof (cases d)
    case 0
    then show ?thesis using Cons.prems(2) by (auto simp: bt_lazy_any_Cons simp del: bt.simps(6))
  next
    case (Suc e)
    then have "bt (RLazy any_char # r) cs \<noteq> None" using Cons.IH[of e] Cons.prems by simp
    then show ?thesis by (auto simp: bt_lazy_any_Cons simp del: bt.simps(6) split: option.splits)
  qed
qed

lemma prefix_split: "prefix w s \<Longrightarrow> s = w @ drop (length w) s"
  by (metis append_eq_conv_conj prefixE)

lemma js_match_question:
  assumes "js_match (RLit Q # RLazy any_char # R) b = Some segs"
  shows "\<exists>before between T ws.
           segs = Q # between # ws \<and> b = before @ Q @ between @ T \<and> bt R T = Some ws \<and>
           (\<forall>j<length between. bt R (drop j (between @ T)) = None) \<and>
           (\<forall>j<length before. \<not> prefix Q (drop j b))"
proof -
  obtain k where s: "search (RLit Q # RLazy any_char # R) b = Some (k, segs)"
    using assms by (auto simp: js_match_def)
  have k: "k \<le> length b" and bt: "bt (RLit Q # RLazy any_char # R) (drop k b) = Some segs"
    using search_sound[OF s] by blast+
  define t1 where "t1 = drop (length Q) (drop k b)"
  obtain s1 where pq: "prefix Q (drop k b)" and l: "bt (RLazy any_char # R) t1 = Some s1"
    and segs: "segs = Q # s1"
    using bt unfolding t1_def by (auto split: if_splits)
  obtain m ws where m: "m \<le> length t1" and s1: "s1 = take m t1 # ws"
    and r: "bt R (drop m t1) = Some ws" and first: "\<forall>j<m. bt R (drop j t1) = None"
    using bt_lazy_any[OF l] by blast
  define before where "before = take k b"
  define between where "between = take m t1"
  define T where "T = drop m t1"
  have lb: "length before = k" using k by (simp add: before_def)
  have lm: "length between = m" using m by (simp add: between_def)
  have t1: "between @ T = t1" unfolding between_def T_def by (rule append_take_drop_id)
  have t: "drop k b = Q @ t1" unfolding t1_def by (rule prefix_split[OF pq])
  have "b = before @ drop k b" unfolding before_def by simp
  then have b: "b = before @ Q @ between @ T" unfolding t t1 .
  have min2: "\<forall>j<length between. bt R (drop j (between @ T)) = None"
    unfolding t1 lm by (rule first)
  have min1: "\<forall>j<length before. \<not> prefix Q (drop j b)"
  proof (intro allI impI notI)
    fix j assume j: "j < length before" and p: "prefix Q (drop j b)"
    then have jk: "j < k" using lb by simp
    define x where "x = drop (length Q) (drop j b)"
    have lx: "length b = k + length Q + m + length T"
      using arg_cong[OF b, of length] lb lm by simp
    have dT: "drop (k + length Q + m) b = T"
      by (subst b) (simp add: lb lm)
    have ar: "k + m - j + length Q + j = k + length Q + m" using jk by simp
    have "drop (k + m - j) x = drop (k + m - j + length Q + j) b"
      unfolding x_def by (simp only: drop_drop add.assoc)
    then have "drop (k + m - j) x = T" unfolding ar dT .
    then have "bt R (drop (k + m - j) x) \<noteq> None" using r unfolding T_def by simp
    moreover have "k + m - j \<le> length x" using lx jk unfolding x_def by simp
    ultimately have "bt (RLazy any_char # R) x \<noteq> None" by (rule bt_lazy_any_later[rotated])
    then have "bt (RLit Q # RLazy any_char # R) (drop j b) \<noteq> None" using p unfolding x_def by auto
    then show False using search_first[OF s jk] by simp
  qed
  have "segs = Q # between # ws" using segs s1 unfolding between_def by simp
  moreover have "bt R T = Some ws" using r unfolding T_def .
  ultimately show ?thesis using b min2 min1 by blast
qed

lemma takeWhile_dropWhile_Nil: "takeWhile P (dropWhile P xs) = []"
  by (induction xs) auto

lemma list_all_takeWhile: "list_all P (takeWhile P xs)"
  by (induction xs) auto

subsection \<open>The first number and the first URL after the question\<close>

lemma bt_number:
  assumes "bt [RLit nl, RPlus is_digit, RLit ''.'', RPlus is_digit] s = Some ws"
  shows "\<exists>major minor rest.
           ws = [nl, major, ''.'', minor] \<and> s = nl @ major @ ''.'' @ minor @ rest \<and>
           major \<noteq> [] \<and> list_all is_digit major \<and> minor \<noteq> [] \<and> list_all is_digit minor \<and>
           takeWhile is_digit rest = []"
proof -
  let ?s1 = "drop (length nl) s"
  obtain w1 where p0: "prefix nl s" and b1: "bt [RPlus is_digit, RLit ''.'', RPlus is_digit] ?s1 = Some w1"
    and ws: "ws = nl # w1"
    using assms by (auto split: if_splits)
  obtain major w2 where w1: "w1 = major # w2" and mj: "major \<noteq> []" "list_all is_digit major"
    and p1: "prefix major ?s1"
    and b2: "bt [RLit ''.'', RPlus is_digit] (drop (length major) ?s1) = Some w2"
    using bt_plus_decomp[OF b1] by blast
  let ?s2 = "drop (length major) ?s1"
  let ?s3 = "drop (length ''.'') ?s2"
  obtain w3 where p2: "prefix ''.'' ?s2" and b3: "bt [RPlus is_digit] ?s3 = Some w3"
    and w2: "w2 = ''.'' # w3"
    using b2 by (auto split: if_splits)
  have w3: "w3 = [takeWhile is_digit ?s3]" and mn: "takeWhile is_digit ?s3 \<noteq> []"
    using bt_plus_last[OF b3] by blast+
  have "s = nl @ ?s1" by (rule prefix_split[OF p0])
  also have "?s1 = major @ ?s2" by (rule prefix_split[OF p1])
  also have "?s2 = ''.'' @ ?s3" by (rule prefix_split[OF p2])
  also have "?s3 = takeWhile is_digit ?s3 @ dropWhile is_digit ?s3" by simp
  finally have "s = nl @ major @ ''.'' @ takeWhile is_digit ?s3 @ dropWhile is_digit ?s3" .
  then show ?thesis
    using mj mn list_all_takeWhile[of is_digit ?s3] takeWhile_dropWhile_Nil[of is_digit ?s3]
    unfolding ws w1 w2 w3 by blast
qed

lemma number_line_bt:
  assumes "number_line s"
  shows "bt [RLit nl, RPlus is_digit, RLit ''.'', RPlus is_digit] s \<noteq> None"
proof -
  obtain major minor rest where s: "s = nl @ major @ ''.'' @ minor @ rest"
    and d: "major \<noteq> []" "list_all is_digit major" "minor \<noteq> []" "list_all is_digit minor"
    using assms unfolding number_line_def by blast
  have "accepts [RLit nl, RPlus is_digit, RLit ''.'', RPlus is_digit] [nl, major, ''.'', minor]"
    using d by (simp add: accepts_Cons)
  moreover have "prefix (concat [nl, major, ''.'', minor]) s" by (simp add: s)
  ultimately show ?thesis by (rule bt_complete)
qed

lemma extract_release_first:
  assumes "extract_release b = Inr n"
  shows "first_release b n"
proof -
  obtain segs where m: "js_match releaseRegex b = Some segs"
    and n: "n = concat (take 3 (drop 3 segs))"
    using assms by (auto simp: extract_release_def Let_def split: option.splits if_splits)
  let ?R = "[RLit nl, RPlus is_digit, RLit ''.'', RPlus is_digit]"
  obtain before between T ws where segs: "segs = release_question # between # ws"
    and b: "b = before @ release_question @ between @ T" and r: "bt ?R T = Some ws"
    and min2: "\<forall>j<length between. bt ?R (drop j (between @ T)) = None"
    and min1: "\<forall>j<length before. \<not> prefix release_question (drop j b)"
    using js_match_question[OF m[unfolded releaseRegex_def]] by blast
  obtain major minor rest where ws: "ws = [nl, major, ''.'', minor]"
    and T: "T = nl @ major @ ''.'' @ minor @ rest"
    and d: "major \<noteq> []" "list_all is_digit major" "minor \<noteq> []" "list_all is_digit minor"
      "takeWhile is_digit rest = []"
    using bt_number[OF r] by blast
  have nn: "n = major @ ''.'' @ minor" by (simp add: n segs ws)
  have "\<forall>j<length between. \<not> number_line (drop j (between @ T))"
    using min2 number_line_bt by blast
  then show ?thesis
    unfolding first_release_def using nn b d min1 unfolding T by blast
qed


lemma first_split_unique:
  assumes b: "b = u @ x" and b': "b = u' @ x'" and P: "P x" "P x'"
    and m: "\<forall>j<length u. \<not> P (drop j b)" and m': "\<forall>j<length u'. \<not> P (drop j b)"
  shows "u = u' \<and> x = x'"
proof -
  have d: "drop (length u) b = x" by (simp add: b)
  have d': "drop (length u') b = x'" by (simp add: b')
  have "\<not> length u < length u'" using m'[rule_format, of "length u"] d P by auto
  moreover have "\<not> length u' < length u" using m[rule_format, of "length u'"] d' P by auto
  ultimately have l: "length u = length u'" by simp
  have "u @ x = u' @ x'" using b b' by simp
  then show ?thesis using l by simp
qed

lemma takeWhile_app_stop:
  "list_all P w \<Longrightarrow> takeWhile P r = [] \<Longrightarrow> takeWhile P (w @ r) = w"
  by (induction w) auto

lemma number_unique:
  assumes e: "major @ ''.'' @ minor @ rest = major' @ ''.'' @ minor' @ rest'"
    and d: "list_all is_digit major" "list_all is_digit minor" "takeWhile is_digit rest = []"
    and d': "list_all is_digit major'" "list_all is_digit minor'" "takeWhile is_digit rest' = []"
  shows "major = major' \<and> minor = minor'"
proof -
  have "takeWhile is_digit (major @ ''.'' @ minor @ rest) = major"
    using d(1) by (rule takeWhile_app_stop) (simp add: is_digit_def)
  moreover have "takeWhile is_digit (major' @ ''.'' @ minor' @ rest') = major'"
    using d'(1) by (rule takeWhile_app_stop) (simp add: is_digit_def)
  ultimately have mj: "major = major'" using e by simp
  then have e2: "minor @ rest = minor' @ rest'" using e by simp
  have "takeWhile is_digit (minor @ rest) = minor" using d(2,3) by (rule takeWhile_app_stop)
  moreover have "takeWhile is_digit (minor' @ rest') = minor'"
    using d'(2,3) by (rule takeWhile_app_stop)
  ultimately show ?thesis using mj e2 by simp
qed

lemma first_release_unique:
  assumes "first_release b n" and "first_release b n'"
  shows "n = n'"
proof -
  obtain before between major minor rest where n: "n = major @ ''.'' @ minor"
    and b: "b = before @ release_question @ between @ nl @ major @ ''.'' @ minor @ rest"
    and d: "major \<noteq> []" "list_all is_digit major" "minor \<noteq> []" "list_all is_digit minor"
      "takeWhile is_digit rest = []"
    and m1: "\<forall>j<length before. \<not> prefix release_question (drop j b)"
    and m2: "\<forall>j<length between.
               \<not> number_line (drop j (between @ nl @ major @ ''.'' @ minor @ rest))"
    using assms(1) unfolding first_release_def by blast
  obtain before' between' major' minor' rest' where n': "n' = major' @ ''.'' @ minor'"
    and b': "b = before' @ release_question @ between' @ nl @ major' @ ''.'' @ minor' @ rest'"
    and d': "major' \<noteq> []" "list_all is_digit major'" "minor' \<noteq> []" "list_all is_digit minor'"
      "takeWhile is_digit rest' = []"
    and m1': "\<forall>j<length before'. \<not> prefix release_question (drop j b)"
    and m2': "\<forall>j<length between'.
               \<not> number_line (drop j (between' @ nl @ major' @ ''.'' @ minor' @ rest'))"
    using assms(2) unfolding first_release_def by blast
  define N where "N = nl @ major @ ''.'' @ minor @ rest"
  define N' where "N' = nl @ major' @ ''.'' @ minor' @ rest'"
  have "release_question @ between @ N = release_question @ between' @ N'"
    using first_split_unique[where P = "prefix release_question", OF b b' _ _ m1 m1']
    unfolding N_def N'_def by simp
  then have c: "between @ N = between' @ N'" by simp
  define c where "c = between @ N"
  have N: "number_line N" unfolding number_line_def N_def using d by blast
  have N': "number_line N'" unfolding number_line_def N'_def using d' by blast
  have "N = N'"
    using first_split_unique[where P = number_line, OF c_def c_def[unfolded c] N N'] m2 m2'
    unfolding c_def[symmetric, unfolded c] c_def[symmetric] N_def[symmetric] N'_def[symmetric]
    by blast
  then have "major @ ''.'' @ minor @ rest = major' @ ''.'' @ minor' @ rest'"
    unfolding N_def N'_def by simp
  then show ?thesis unfolding n n' using number_unique d d' by blast
qed

lemma first_release_pattern: "first_release b n \<Longrightarrow> release_pattern b"
  unfolding first_release_def release_pattern_def by blast

lemma extract_release_first_iff: "extract_release b = Inr n \<longleftrightarrow> first_release b n"
proof
  assume f: "first_release b n"
  then obtain n' where e: "extract_release b = Inr n'"
    using extract_release_pattern first_release_pattern by blast
  then have "first_release b n'" by (rule extract_release_first)
  then show "extract_release b = Inr n" using f e first_release_unique by blast
qed (rule extract_release_first)


lemma bt_url:
  assumes "bt [RLit nl, RLit ''https://github.com/'', RPlus is_repo_char, RLit ''/'',
               RPlus is_repo_char, RLit ''/pull/'', RPlus is_digit] s = Some ws"
  shows "\<exists>owner repo number rest.
           ws = [nl, ''https://github.com/'', owner, ''/'', repo, ''/pull/'', number] \<and>
           s = nl @ ''https://github.com/'' @ owner @ ''/'' @ repo @ ''/pull/'' @ number @ rest \<and>
           owner \<noteq> [] \<and> list_all is_repo_char owner \<and> repo \<noteq> [] \<and> list_all is_repo_char repo \<and>
           number \<noteq> [] \<and> list_all is_digit number \<and> takeWhile is_digit rest = []"
proof -
  define s1 where "s1 = drop (length nl) s"
  obtain w1 where p0: "prefix nl s"
    and b1: "bt [RLit ''https://github.com/'', RPlus is_repo_char, RLit ''/'',
               RPlus is_repo_char, RLit ''/pull/'', RPlus is_digit] s1 = Some w1"
    and ws: "ws = nl # w1"
    using assms unfolding s1_def by (auto split: if_splits)
  define s2 where "s2 = drop (length ''https://github.com/'') s1"
  obtain w2 where p1: "prefix ''https://github.com/'' s1"
    and b2: "bt [RPlus is_repo_char, RLit ''/'', RPlus is_repo_char, RLit ''/pull/'',
               RPlus is_digit] s2 = Some w2"
    and w1: "w1 = ''https://github.com/'' # w2"
    using b1 unfolding s2_def by (auto split: if_splits)
  obtain owner w3 where w2: "w2 = owner # w3" and ow: "owner \<noteq> []" "list_all is_repo_char owner"
    and p2: "prefix owner s2"
    and b3: "bt [RLit ''/'', RPlus is_repo_char, RLit ''/pull/'', RPlus is_digit]
               (drop (length owner) s2) = Some w3"
    using bt_plus_decomp[OF b2] by blast
  define s3 where "s3 = drop (length owner) s2"
  define s4 where "s4 = drop (length ''/'') s3"
  obtain w4 where p3: "prefix ''/'' s3"
    and b4: "bt [RPlus is_repo_char, RLit ''/pull/'', RPlus is_digit] s4 = Some w4"
    and w3: "w3 = ''/'' # w4"
    using b3 unfolding s3_def[symmetric] s4_def by (auto split: if_splits)
  obtain repo w5 where w4: "w4 = repo # w5" and re: "repo \<noteq> []" "list_all is_repo_char repo"
    and p4: "prefix repo s4"
    and b5: "bt [RLit ''/pull/'', RPlus is_digit] (drop (length repo) s4) = Some w5"
    using bt_plus_decomp[OF b4] by blast
  define s5 where "s5 = drop (length repo) s4"
  define s6 where "s6 = drop (length ''/pull/'') s5"
  obtain w6 where p5: "prefix ''/pull/'' s5" and b6: "bt [RPlus is_digit] s6 = Some w6"
    and w5: "w5 = ''/pull/'' # w6"
    using b5 unfolding s5_def[symmetric] s6_def by (auto split: if_splits)
  have w6: "w6 = [takeWhile is_digit s6]" and nu: "takeWhile is_digit s6 \<noteq> []"
    using bt_plus_last[OF b6] by blast+
  have "s = nl @ s1" unfolding s1_def by (rule prefix_split[OF p0])
  also have "s1 = ''https://github.com/'' @ s2" unfolding s2_def by (rule prefix_split[OF p1])
  also have "s2 = owner @ s3" unfolding s3_def by (rule prefix_split[OF p2])
  also have "s3 = ''/'' @ s4" unfolding s4_def by (rule prefix_split[OF p3])
  also have "s4 = repo @ s5" unfolding s5_def by (rule prefix_split[OF p4])
  also have "s5 = ''/pull/'' @ s6" unfolding s6_def by (rule prefix_split[OF p5])
  also have "s6 = takeWhile is_digit s6 @ dropWhile is_digit s6" by simp
  finally have "s = nl @ ''https://github.com/'' @ owner @ ''/'' @ repo @ ''/pull/'' @
      takeWhile is_digit s6 @ dropWhile is_digit s6" .
  then show ?thesis
    using ow re nu list_all_takeWhile[of is_digit s6] takeWhile_dropWhile_Nil[of is_digit s6]
    unfolding ws w1 w2 w3 w4 w5 w6 by blast
qed

lemma url_line_bt:
  assumes "url_line s"
  shows "bt [RLit nl, RLit ''https://github.com/'', RPlus is_repo_char, RLit ''/'',
             RPlus is_repo_char, RLit ''/pull/'', RPlus is_digit] s \<noteq> None"
proof -
  obtain owner repo number rest
    where s: "s = nl @ ''https://github.com/'' @ owner @ ''/'' @ repo @ ''/pull/'' @ number @ rest"
    and d: "owner \<noteq> []" "list_all is_repo_char owner" "repo \<noteq> []" "list_all is_repo_char repo"
      "number \<noteq> []" "list_all is_digit number"
    using assms unfolding url_line_def by blast
  have "accepts [RLit nl, RLit ''https://github.com/'', RPlus is_repo_char, RLit ''/'',
             RPlus is_repo_char, RLit ''/pull/'', RPlus is_digit]
          [nl, ''https://github.com/'', owner, ''/'', repo, ''/pull/'', number]"
    using d by (simp add: accepts_Cons)
  moreover have "prefix (concat [nl, ''https://github.com/'', owner, ''/'', repo, ''/pull/'', number]) s"
    by (simp add: s)
  ultimately show ?thesis by (rule bt_complete)
qed

lemma extract_pr_first:
  assumes "extract_pr b = Inr p"
  shows "first_pr b p"
proof -
  obtain segs where m: "js_match prRegex b = Some segs" and p: "p = concat (drop 8 segs)"
    using assms by (auto simp: extract_pr_def Let_def split: option.splits if_splits)
  define R where "R = [RLit nl, RLit ''https://github.com/'', RPlus is_repo_char, RLit ''/'',
             RPlus is_repo_char, RLit ''/pull/'', RPlus is_digit]"
  have m': "js_match (RLit pr_question # RLazy any_char # R) b = Some segs"
    using m unfolding prRegex_def R_def .
  obtain before between T ws where segs: "segs = pr_question # between # ws"
    and b: "b = before @ pr_question @ between @ T" and r: "bt R T = Some ws"
    and min2: "\<forall>j<length between. bt R (drop j (between @ T)) = None"
    and min1: "\<forall>j<length before. \<not> prefix pr_question (drop j b)"
    using js_match_question[OF m'] by blast
  obtain owner repo number rest
    where ws: "ws = [nl, ''https://github.com/'', owner, ''/'', repo, ''/pull/'', number]"
    and T: "T = nl @ ''https://github.com/'' @ owner @ ''/'' @ repo @ ''/pull/'' @ number @ rest"
    and d: "owner \<noteq> []" "list_all is_repo_char owner" "repo \<noteq> []" "list_all is_repo_char repo"
      "number \<noteq> []" "list_all is_digit number" "takeWhile is_digit rest = []"
    using bt_url[OF r[unfolded R_def]] by blast
  have pp: "p = number" by (simp add: p segs ws)
  have "\<forall>j<length between. \<not> url_line (drop j (between @ T))"
    using min2 url_line_bt unfolding R_def by blast
  then show ?thesis
    unfolding first_pr_def pp using b d min1 unfolding T by blast
qed

lemma url_unique:
  assumes e: "owner @ ''/'' @ repo @ ''/pull/'' @ p @ rest =
              owner' @ ''/'' @ repo' @ ''/pull/'' @ p' @ rest'"
    and d: "list_all is_repo_char owner" "list_all is_repo_char repo" "list_all is_digit p"
      "takeWhile is_digit rest = []"
    and d': "list_all is_repo_char owner'" "list_all is_repo_char repo'" "list_all is_digit p'"
      "takeWhile is_digit rest' = []"
  shows "p = p'"
proof -
  have "takeWhile is_repo_char (owner @ ''/'' @ repo @ ''/pull/'' @ p @ rest) = owner"
    using d(1) by (rule takeWhile_app_stop) (simp add: is_repo_char_def)
  moreover have "takeWhile is_repo_char (owner' @ ''/'' @ repo' @ ''/pull/'' @ p' @ rest') = owner'"
    using d'(1) by (rule takeWhile_app_stop) (simp add: is_repo_char_def)
  ultimately have "owner = owner'" using e by simp
  then have e2: "repo @ ''/pull/'' @ p @ rest = repo' @ ''/pull/'' @ p' @ rest'" using e by simp
  have "takeWhile is_repo_char (repo @ ''/pull/'' @ p @ rest) = repo"
    using d(2) by (rule takeWhile_app_stop) (simp add: is_repo_char_def)
  moreover have "takeWhile is_repo_char (repo' @ ''/pull/'' @ p' @ rest') = repo'"
    using d'(2) by (rule takeWhile_app_stop) (simp add: is_repo_char_def)
  ultimately have "repo = repo'" using e2 by simp
  then have e3: "p @ rest = p' @ rest'" using e2 by simp
  have "takeWhile is_digit (p @ rest) = p" using d(3,4) by (rule takeWhile_app_stop)
  moreover have "takeWhile is_digit (p' @ rest') = p'" using d'(3,4) by (rule takeWhile_app_stop)
  ultimately show ?thesis using e3 by simp
qed

lemma first_pr_unique:
  assumes "first_pr b p" and "first_pr b p'"
  shows "p = p'"
proof -
  obtain before between owner repo rest
    where b: "b = before @ pr_question @ between @ nl @
            ''https://github.com/'' @ owner @ ''/'' @ repo @ ''/pull/'' @ p @ rest"
    and d: "owner \<noteq> []" "list_all is_repo_char owner" "repo \<noteq> []" "list_all is_repo_char repo"
      "p \<noteq> []" "list_all is_digit p" "takeWhile is_digit rest = []"
    and m1: "\<forall>j<length before. \<not> prefix pr_question (drop j b)"
    and m2: "\<forall>j<length between. \<not> url_line (drop j (between @ nl @
              ''https://github.com/'' @ owner @ ''/'' @ repo @ ''/pull/'' @ p @ rest))"
    using assms(1) unfolding first_pr_def by blast
  obtain before' between' owner' repo' rest'
    where b': "b = before' @ pr_question @ between' @ nl @
            ''https://github.com/'' @ owner' @ ''/'' @ repo' @ ''/pull/'' @ p' @ rest'"
    and d': "owner' \<noteq> []" "list_all is_repo_char owner'" "repo' \<noteq> []"
      "list_all is_repo_char repo'" "p' \<noteq> []" "list_all is_digit p'"
      "takeWhile is_digit rest' = []"
    and m1': "\<forall>j<length before'. \<not> prefix pr_question (drop j b)"
    and m2': "\<forall>j<length between'. \<not> url_line (drop j (between' @ nl @
              ''https://github.com/'' @ owner' @ ''/'' @ repo' @ ''/pull/'' @ p' @ rest'))"
    using assms(2) unfolding first_pr_def by blast
  define N where "N = nl @ ''https://github.com/'' @ owner @ ''/'' @ repo @ ''/pull/'' @ p @ rest"
  define N' where
    "N' = nl @ ''https://github.com/'' @ owner' @ ''/'' @ repo' @ ''/pull/'' @ p' @ rest'"
  have "pr_question @ between @ N = pr_question @ between' @ N'"
    using first_split_unique[where P = "prefix pr_question", OF b b' _ _ m1 m1']
    unfolding N_def N'_def by simp
  then have c: "between @ N = between' @ N'" by simp
  define c where "c = between @ N"
  have N: "url_line N" unfolding url_line_def N_def using d by blast
  have N': "url_line N'" unfolding url_line_def N'_def using d' by blast
  have "N = N'"
    using first_split_unique[where P = url_line, OF c_def c_def[unfolded c] N N'] m2 m2'
    unfolding c_def[symmetric, unfolded c] c_def[symmetric] N_def[symmetric] N'_def[symmetric]
    by blast
  then have "owner @ ''/'' @ repo @ ''/pull/'' @ p @ rest =
             owner' @ ''/'' @ repo' @ ''/pull/'' @ p' @ rest'"
    unfolding N_def N'_def by simp
  then show ?thesis using url_unique d d' by blast
qed

lemma first_pr_pattern: "first_pr b p \<Longrightarrow> pr_pattern b"
  unfolding first_pr_def pr_pattern_def by blast

lemma extract_pr_first_iff: "extract_pr b = Inr p \<longleftrightarrow> first_pr b p"
proof
  assume f: "first_pr b p"
  then obtain p' where e: "extract_pr b = Inr p'"
    using extract_pr_pattern first_pr_pattern by blast
  then have "first_pr b p'" by (rule extract_pr_first)
  then show "extract_pr b = Inr p" using f e first_pr_unique by blast
qed (rule extract_pr_first)


subsection \<open>The approved path\<close>

text \<open>
  The specification's wording of the two patterns is wider than what the steps accept. A body
  whose release line reads \<open>Release 6.7\<close> has the release question followed on a later line by
  a MAJOR.MINOR number, and the release extraction fails: the number does not start its line.
  A body with the pull-request question and the URL on one line has the question followed by a
  GitHub pull-request URL, and the pull-request extraction fails, and with it the run, although
  the release number is found. So does a body whose URL, at the start of its line, names a
  repository with a dot in its name.
\<close>

theorem cfe_claimed_patterns_counterexample:
  "claimed_release_pattern (''Which release does this request apply to?'' @ nl @
      ''Release 6.7'' @ nl @
      ''Which PR needs to be included?'' @ nl @ ''https://github.com/org/repo/pull/1234'') \<and>
   extract_release (''Which release does this request apply to?'' @ nl @
      ''Release 6.7'' @ nl @
      ''Which PR needs to be included?'' @ nl @ ''https://github.com/org/repo/pull/1234'') =
     Inl release_failure \<and>
   claimed_pr_pattern (''Which release does this request apply to?'' @ nl @ ''6.7'' @ nl @
      ''Which PR needs to be included? https://github.com/org/repo/pull/1234'') \<and>
   extract_pr (''Which release does this request apply to?'' @ nl @ ''6.7'' @ nl @
      ''Which PR needs to be included? https://github.com/org/repo/pull/1234'') =
     Inl pr_failure \<and>
   approved_run \<lparr>body = ''Which release does this request apply to?'' @ nl @ ''6.7'' @ nl @
        ''Which PR needs to be included? https://github.com/org/repo/pull/1234'',
      html_url = ''https://github.com/org/repo/issues/9'', title = ''Fix cart'',
      repo_owner = ''org'', repo_name = ''repo''\<rparr> = Inl pr_failure \<and>
   claimed_pr_pattern (''Which PR needs to be included?'' @ nl @
      ''https://github.com/org/repo.js/pull/1234'') \<and>
   extract_pr (''Which PR needs to be included?'' @ nl @
      ''https://github.com/org/repo.js/pull/1234'') = Inl pr_failure"
proof (intro conjI)
  show "claimed_release_pattern (''Which release does this request apply to?'' @ nl @
      ''Release 6.7'' @ nl @
      ''Which PR needs to be included?'' @ nl @ ''https://github.com/org/repo/pull/1234'')"
    unfolding claimed_release_pattern_def
    apply (rule exI[of _ "[]"])
    apply (rule exI[of _ "[]"])
    apply (rule exI[of _ "''Release ''"])
    apply (rule exI[of _ "''6''"])
    apply (rule exI[of _ "''7''"])
    apply (rule exI[of _ "nl @ ''Which PR needs to be included?'' @ nl @
      ''https://github.com/org/repo/pull/1234''"])
    apply (simp add: release_question_def nl_def is_digit_def)
    done
  show "extract_release (''Which release does this request apply to?'' @ nl @
      ''Release 6.7'' @ nl @
      ''Which PR needs to be included?'' @ nl @ ''https://github.com/org/repo/pull/1234'') =
     Inl release_failure"
    by code_simp
  show "claimed_pr_pattern (''Which release does this request apply to?'' @ nl @ ''6.7'' @ nl @
      ''Which PR needs to be included? https://github.com/org/repo/pull/1234'')"
    unfolding claimed_pr_pattern_def
    apply (rule exI[of _ "''Which release does this request apply to?'' @ nl @ ''6.7'' @ nl"])
    apply (rule exI[of _ "'' ''"])
    apply (rule exI[of _ "''org''"])
    apply (rule exI[of _ "''repo''"])
    apply (rule exI[of _ "''1234''"])
    apply (rule exI[of _ "[]"])
    apply (simp add: pr_question_def nl_def is_digit_def is_name_char_def is_repo_char_def)
    done
  show "extract_pr (''Which release does this request apply to?'' @ nl @ ''6.7'' @ nl @
      ''Which PR needs to be included? https://github.com/org/repo/pull/1234'') =
     Inl pr_failure"
    by code_simp
  show "approved_run \<lparr>body = ''Which release does this request apply to?'' @ nl @ ''6.7'' @ nl @
        ''Which PR needs to be included? https://github.com/org/repo/pull/1234'',
      html_url = ''https://github.com/org/repo/issues/9'', title = ''Fix cart'',
      repo_owner = ''org'', repo_name = ''repo''\<rparr> = Inl pr_failure"
    by code_simp
  show "claimed_pr_pattern (''Which PR needs to be included?'' @ nl @
      ''https://github.com/org/repo.js/pull/1234'')"
    unfolding claimed_pr_pattern_def
    apply (rule exI[of _ "[]"])
    apply (rule exI[of _ "nl"])
    apply (rule exI[of _ "''org''"])
    apply (rule exI[of _ "''repo.js''"])
    apply (rule exI[of _ "''1234''"])
    apply (rule exI[of _ "[]"])
    apply (simp add: pr_question_def nl_def is_digit_def is_name_char_def is_repo_char_def)
    done
  show "extract_pr (''Which PR needs to be included?'' @ nl @
      ''https://github.com/org/repo.js/pull/1234'') = Inl pr_failure"
    by code_simp
qed

text \<open>
  Claim C9, with the patterns as the steps accept them. For every issue body: the release
  extraction yields \<open>n\<close> exactly when \<open>n\<close> is the MAJOR.MINOR number that starts the first line,
  after the first occurrence of the question \<open>Which release does this request apply to?\<close>,
  that starts with such a number; so it succeeds exactly when the body has the question
  followed, at the start of a later line, by digits, a dot and digits. The pull-request
  extraction yields \<open>p\<close> exactly when \<open>p\<close> is the number of the GitHub pull-request URL (owner
  and repository written with letters, digits, \<open>_\<close> and \<open>-\<close>) that starts the first line,
  after the first occurrence of the question \<open>Which PR needs to be included?\<close>, that starts
  with such a URL; so it succeeds exactly when the body has the question followed, at the
  start of a later line, by such a URL. On the approved path a body without the release
  pattern fails the run with the release message, a body with it and without the pull-request
  pattern fails the run with the pull-request message, and a body that names release \<open>n\<close> and
  pull request \<open>p\<close> makes the run label pull request \<open>p\<close> \<open>cherry pick to trunk\<close>, set the
  issue's milestone to \<open>n\<close> followed by \<open>.0\<close>, comment on the issue and notify the channel.
\<close>

theorem cfe_approved_run:
  "(\<forall>n. extract_release (body ev) = Inr n \<longleftrightarrow> first_release (body ev) n) \<and>
   (\<forall>p. extract_pr (body ev) = Inr p \<longleftrightarrow> first_pr (body ev) p) \<and>
   ((\<exists>n. extract_release (body ev) = Inr n) \<longleftrightarrow> release_pattern (body ev)) \<and>
   (\<forall>n. extract_release (body ev) = Inr n \<longrightarrow>
      (\<exists>major minor. n = major @ ''.'' @ minor \<and> major \<noteq> [] \<and> list_all is_digit major \<and>
         minor \<noteq> [] \<and> list_all is_digit minor)) \<and>
   ((\<exists>p. extract_pr (body ev) = Inr p) \<longleftrightarrow> pr_pattern (body ev)) \<and>
   (\<forall>p. extract_pr (body ev) = Inr p \<longrightarrow> p \<noteq> [] \<and> list_all is_digit p) \<and>
   (\<not> release_pattern (body ev) \<longrightarrow> approved_run ev = Inl release_failure) \<and>
   (release_pattern (body ev) \<and> \<not> pr_pattern (body ev) \<longrightarrow> approved_run ev = Inl pr_failure) \<and>
   (release_pattern (body ev) \<and> pr_pattern (body ev) \<longrightarrow>
      (\<exists>n p. first_release (body ev) n \<and> first_pr (body ev) p)) \<and>
   (\<forall>n p. first_release (body ev) n \<and> first_pr (body ev) p \<longrightarrow>
      approved_run ev =
        Inr [PrAddLabel p ''cherry pick to trunk'' (repo_owner ev @ ''/'' @ repo_name ev),
             IssueMilestone (html_url ev) (n @ ''.0''),
             IssueComment (html_url ev)
               ''This request has been approved. Please merge the PR to release branch.'',
             SlackNotify ('':white_check_mark: CFE request approved: '' @ title ev @ nl @
               html_url ev @ nl)])"
proof (intro conjI allI impI)
  show "(\<exists>n. extract_release (body ev) = Inr n) \<longleftrightarrow> release_pattern (body ev)"
    by (rule extract_release_iff)
  show "(\<exists>p. extract_pr (body ev) = Inr p) \<longleftrightarrow> pr_pattern (body ev)"
    by (rule extract_pr_iff)
next
  fix n show "extract_release (body ev) = Inr n \<longleftrightarrow> first_release (body ev) n"
    by (rule extract_release_first_iff)
next
  fix p show "extract_pr (body ev) = Inr p \<longleftrightarrow> first_pr (body ev) p"
    by (rule extract_pr_first_iff)
next
  fix n assume "extract_release (body ev) = Inr n"
  then show "\<exists>major minor. n = major @ ''.'' @ minor \<and> major \<noteq> [] \<and> list_all is_digit major \<and>
      minor \<noteq> [] \<and> list_all is_digit minor"
    using extract_release_Inr by blast
next
  fix p assume "extract_pr (body ev) = Inr p"
  then show "p \<noteq> []" and "list_all is_digit p" using extract_pr_Inr[of "body ev" p] by blast+
next
  assume "\<not> release_pattern (body ev)"
  then have "\<nexists>n. extract_release (body ev) = Inr n" by (simp add: extract_release_iff)
  then obtain e where "extract_release (body ev) = Inl e" by (cases "extract_release (body ev)") auto
  then show "approved_run ev = Inl release_failure"
    using extract_release_failure by (auto simp: approved_run_def prep_def)
next
  assume a: "release_pattern (body ev) \<and> \<not> pr_pattern (body ev)"
  then obtain n where n: "extract_release (body ev) = Inr n" using extract_release_pattern by blast
  have "\<nexists>p. extract_pr (body ev) = Inr p" using a by (simp add: extract_pr_iff)
  then obtain e where "extract_pr (body ev) = Inl e" by (cases "extract_pr (body ev)") auto
  then show "approved_run ev = Inl pr_failure"
    using extract_pr_failure n by (auto simp: approved_run_def prep_def cfe_approved_def)
next
  assume a: "release_pattern (body ev) \<and> pr_pattern (body ev)"
  then obtain n where n: "extract_release (body ev) = Inr n" using extract_release_pattern by blast
  obtain p where p: "extract_pr (body ev) = Inr p" using a extract_pr_pattern by blast
  show "\<exists>n p. first_release (body ev) n \<and> first_pr (body ev) p"
    using n p extract_release_first extract_pr_first by blast
next
  fix n p assume a: "first_release (body ev) n \<and> first_pr (body ev) p"
  have n: "extract_release (body ev) = Inr n" using a by (simp add: extract_release_first_iff)
  have p: "extract_pr (body ev) = Inr p" using a by (simp add: extract_pr_first_iff)
  show "approved_run ev =
        Inr [PrAddLabel p ''cherry pick to trunk'' (repo_owner ev @ ''/'' @ repo_name ev),
             IssueMilestone (html_url ev) (n @ ''.0''),
             IssueComment (html_url ev)
               ''This request has been approved. Please merge the PR to release branch.'',
             SlackNotify ('':white_check_mark: CFE request approved: '' @ title ev @ nl @
               html_url ev @ nl)]"
    using n p by (simp add: approved_run_def prep_def cfe_approved_def)
qed

theorem cfe_approved_run_witness:
  "first_release (''### Which release does this request apply to?'' @ nl @ ''6.7'' @ nl @
      ''### Which PR needs to be included?'' @ nl @ ''https://github.com/org/repo/pull/1234'')
      ''6.7'' \<and>
   first_pr (''### Which release does this request apply to?'' @ nl @ ''6.7'' @ nl @
      ''### Which PR needs to be included?'' @ nl @ ''https://github.com/org/repo/pull/1234'')
      ''1234'' \<and>
   release_pattern (''### Which release does this request apply to?'' @ nl @ ''6.7'' @ nl @
      ''### Which PR needs to be included?'' @ nl @ ''https://github.com/org/repo/pull/1234'') \<and>
   pr_pattern (''### Which release does this request apply to?'' @ nl @ ''6.7'' @ nl @
      ''### Which PR needs to be included?'' @ nl @ ''https://github.com/org/repo/pull/1234'') \<and>
   approved_run \<lparr>body = ''### Which release does this request apply to?'' @ nl @ ''6.7'' @ nl @
        ''### Which PR needs to be included?'' @ nl @ ''https://github.com/org/repo/pull/1234'',
      html_url = ''https://github.com/org/repo/issues/9'', title = ''Fix cart'',
      repo_owner = ''org'', repo_name = ''repo''\<rparr> =
     Inr [PrAddLabel ''1234'' ''cherry pick to trunk'' ''org/repo'',
          IssueMilestone ''https://github.com/org/repo/issues/9'' ''6.7.0'',
          IssueComment ''https://github.com/org/repo/issues/9''
            ''This request has been approved. Please merge the PR to release branch.'',
          SlackNotify ('':white_check_mark: CFE request approved: Fix cart'' @ nl @
            ''https://github.com/org/repo/issues/9'' @ nl)] \<and>
   \<not> pr_pattern (''Which release does this request apply to?'' @ nl @ ''6.7'' @ nl @
      ''Which PR needs to be included? https://github.com/org/repo/pull/1234'') \<and>
   approved_run \<lparr>body = ''Which release does this request apply to?'' @ nl @ ''6.7'' @ nl @
        ''Which PR needs to be included? https://github.com/org/repo/pull/1234'',
      html_url = ''https://github.com/org/repo/issues/9'', title = ''Fix cart'',
      repo_owner = ''org'', repo_name = ''repo''\<rparr> = Inl pr_failure \<and>
   \<not> release_pattern ''6.7'' \<and>
   approved_run \<lparr>body = ''6.7'', html_url = ''https://github.com/org/repo/issues/9'',
      title = ''Fix cart'', repo_owner = ''org'', repo_name = ''repo''\<rparr> = Inl release_failure"
proof -
  let ?b = "''### Which release does this request apply to?'' @ nl @ ''6.7'' @ nl @
      ''### Which PR needs to be included?'' @ nl @ ''https://github.com/org/repo/pull/1234''"
  let ?ev = "\<lparr>body = ?b, html_url = ''https://github.com/org/repo/issues/9'', title = ''Fix cart'',
      repo_owner = ''org'', repo_name = ''repo''\<rparr>"
  let ?c = "''Which release does this request apply to?'' @ nl @ ''6.7'' @ nl @
      ''Which PR needs to be included? https://github.com/org/repo/pull/1234''"
  let ?ew = "\<lparr>body = ?c, html_url = ''https://github.com/org/repo/issues/9'', title = ''Fix cart'',
      repo_owner = ''org'', repo_name = ''repo''\<rparr>"
  let ?ex = "\<lparr>body = ''6.7'', html_url = ''https://github.com/org/repo/issues/9'',
      title = ''Fix cart'', repo_owner = ''org'', repo_name = ''repo''\<rparr>"
  have r: "extract_release (body ?ev) = Inr ''6.7''" by code_simp
  have p: "extract_pr (body ?ev) = Inr ''1234''" by code_simp
  have rw: "extract_release (body ?ew) = Inr ''6.7''" by code_simp
  have pw: "extract_pr (body ?ew) = Inl pr_failure" by code_simp
  have rx: "extract_release (body ?ex) = Inl release_failure" by code_simp
  note T = cfe_approved_run[of ?ev]
  note W = cfe_approved_run[of ?ew]
  note X = cfe_approved_run[of ?ex]
  have fr: "first_release (body ?ev) ''6.7''" using T r by blast
  have fp: "first_pr (body ?ev) ''1234''" using T p by blast
  have rp: "release_pattern (body ?ev)" using T r by blast
  have pp: "pr_pattern (body ?ev)" using T p by blast
  have "approved_run ?ev =
     Inr [PrAddLabel ''1234'' ''cherry pick to trunk'' (repo_owner ?ev @ ''/'' @ repo_name ?ev),
          IssueMilestone (html_url ?ev) (''6.7'' @ ''.0''),
          IssueComment (html_url ?ev)
            ''This request has been approved. Please merge the PR to release branch.'',
          SlackNotify ('':white_check_mark: CFE request approved: '' @ title ?ev @ nl @
            html_url ?ev @ nl)]"
    using T fr fp by blast
  then have run: "approved_run ?ev =
     Inr [PrAddLabel ''1234'' ''cherry pick to trunk'' ''org/repo'',
          IssueMilestone ''https://github.com/org/repo/issues/9'' ''6.7.0'',
          IssueComment ''https://github.com/org/repo/issues/9''
            ''This request has been approved. Please merge the PR to release branch.'',
          SlackNotify ('':white_check_mark: CFE request approved: Fix cart'' @ nl @
            ''https://github.com/org/repo/issues/9'' @ nl)]"
    by simp
  have rpw: "release_pattern (body ?ew)" using W rw by blast
  have npw: "\<not> pr_pattern (body ?ew)" using W pw by auto
  have runw: "approved_run ?ew = Inl pr_failure" using W rpw npw by blast
  have nrx: "\<not> release_pattern (body ?ex)" using X rx by auto
  have runx: "approved_run ?ex = Inl release_failure" using X nrx by blast
  show ?thesis using fr fp rp pp run npw runw nrx runx by simp
qed

end
